theory Spec2Isabelle
  imports Complex_Main
begin

unbundle bit_operations_syntax

section \<open>The operator table\<close>

text \<open>
  The calculator of \<^verbatim>\<open>Calc.py\<close>: a tokeniser, a precedence-climbing parser and an
  evaluator. The three kind constants \<^verbatim>\<open>UNARYOP = 1\<close>, \<^verbatim>\<open>BINARYOP = 2\<close>,
  \<^verbatim>\<open>SUBEXPR = 3\<close> and the two associativity constants \<^verbatim>\<open>LEFT = 'L'\<close>,
  \<^verbatim>\<open>RIGHT = 'R'\<close> are only ever compared for equality, so each group is a datatype.
\<close>

datatype kind = UNARYOP | BINARYOP | SUBEXPR

datatype associativity = LEFT | RIGHT

type_synonym op_entry = "kind \<times> associativity \<times> nat"

definition Op_Sets :: "(kind \<times> associativity \<times> string list) list" where
  "Op_Sets =
    [ (BINARYOP, LEFT,  [''|'']),
      (BINARYOP, LEFT,  [''^'']),
      (BINARYOP, LEFT,  [''&'']),
      (BINARYOP, LEFT,  [''<<'', ''>>'']),
      (BINARYOP, LEFT,  [''+'', ''-'']),
      (BINARYOP, LEFT,  [''*'', ''/'', ''%'']),
      (UNARYOP,  RIGHT, [''+ x'', ''- x'', ''~ x'']),
      (BINARYOP, RIGHT, [''**'']) ]"

text \<open>
  \<^verbatim>\<open>build_Op_Table\<close>: the outer loop counts the precedence up by one per group, the
  inner loop stores one entry per operator of the group. The dictionary is a map.
\<close>

fun build_ops :: "kind \<Rightarrow> associativity \<Rightarrow> nat \<Rightarrow> string list \<Rightarrow> (string \<rightharpoonup> op_entry) \<Rightarrow> (string \<rightharpoonup> op_entry)" where
  "build_ops k a precedence [] table = table"
| "build_ops k a precedence (opr # ops) table = build_ops k a precedence ops (table(opr \<mapsto> (k, a, precedence)))"

fun build_sets :: "(kind \<times> associativity \<times> string list) list \<Rightarrow> nat \<Rightarrow> (string \<rightharpoonup> op_entry) \<Rightarrow> (string \<rightharpoonup> op_entry)" where
  "build_sets [] precedence table = table"
| "build_sets ((k, a, ops) # sets) precedence table =
     build_sets sets (precedence + 1) (build_ops k a (precedence + 1) ops table)"

definition build_Op_Table :: "(string \<rightharpoonup> op_entry) \<Rightarrow> (string \<rightharpoonup> op_entry)" where
  "build_Op_Table table = build_sets Op_Sets 0 table"

text \<open>The table as \<^verbatim>\<open>setup()\<close> leaves it: built once from the empty dictionary.\<close>

definition Op_Table :: "string \<rightharpoonup> op_entry" where
  "Op_Table = build_Op_Table Map.empty"

section \<open>The tokeniser\<close>

definition Predefined_Tokens :: "string list" where
  "Predefined_Tokens =
    [ ''**'',
      ''<<'', ''>>'',
      ''('', '')'',
      ''~'',
      ''+'', ''-'', ''*'', ''/'', ''%'',
      ''|'', ''^'', ''&'' ]"

text \<open>The string \<^verbatim>\<open>" \t\n"\<close> of the whitespace test and the alphabet of the number scan.\<close>

definition whitespace :: string where
  "whitespace = [CHR '' '', CHR 0x09, CHR 0x0A]"

definition number_chars :: string where
  "number_chars = ''0123456789abcdefABCDEF.xXbo''"

text \<open>Python's slice \<^verbatim>\<open>line[start:finish]\<close> for \<open>0 \<le> start\<close>: clipped at the end of the line.\<close>

definition slice :: "string \<Rightarrow> nat \<Rightarrow> nat \<Rightarrow> string" where
  "slice line start finish = take (finish - start) (drop start line)"

text \<open>
  The \<^verbatim>\<open>for tok in Predefined_Tokens\<close> loop: the first listed token that the line
  holds at \<open>start\<close>, if any.
\<close>

fun find_punct :: "string list \<Rightarrow> string \<Rightarrow> nat \<Rightarrow> string option" where
  "find_punct [] line start = None"
| "find_punct (tok # toks) line start =
     (if slice line start (start + length tok) = tok then Some tok
      else find_punct toks line start)"

text \<open>The inner \<^verbatim>\<open>while i < len(line) and line[i] in "0123..."\<close> loop; it returns \<open>i\<close>.\<close>

function scan_number :: "string \<Rightarrow> nat \<Rightarrow> nat" where
  "scan_number line i =
     (if i < length line \<and> line ! i \<in> set number_chars then scan_number line (i + 1) else i)"
  by pat_completeness auto
termination
  by (relation "measure (\<lambda>(line, i). length line - i)") auto

declare scan_number.simps [simp del]

lemma find_punct_mem: "find_punct toks line start = Some tok \<Longrightarrow> tok \<in> set toks"
  by (induction toks) (auto split: if_splits)

lemma find_punct_nonempty:
  "find_punct Predefined_Tokens line start = Some tok \<Longrightarrow> 0 < length tok"
  by (drule find_punct_mem) (auto simp: Predefined_Tokens_def)

text \<open>
  The outer \<^verbatim>\<open>while start < len(line)\<close> loop of \<^verbatim>\<open>tokenise\<close>, with the list of
  tokens appended so far. The final \<^verbatim>\<open>break\<close> (no whitespace, no predefined token, no
  number character) returns the tokens as they are.
\<close>

function tokenise_loop :: "string \<Rightarrow> nat \<Rightarrow> string list \<Rightarrow> string list" where
  "tokenise_loop line start tokens =
     (if start < length line then
        if line ! start \<in> set whitespace then tokenise_loop line (start + 1) tokens
        else
          case find_punct Predefined_Tokens line start of
            Some tok \<Rightarrow> tokenise_loop line (start + length tok) (tokens @ [tok])
          | None \<Rightarrow>
              let i = scan_number line start in
              if i > start then tokenise_loop line i (tokens @ [slice line start i])
              else tokens
      else tokens)"
  by pat_completeness auto
termination
proof (relation "measure (\<lambda>(line, start, tokens). length line - start)")
  fix line :: string and start :: nat and tok :: string
  assume "start < length line" and "find_punct Predefined_Tokens line start = Some tok"
  then have "length line - (start + length tok) < length line - start"
    using find_punct_nonempty [of line start tok] by arith
  then show "((line, start + length tok, tokens @ [tok]), (line, start, tokens))
      \<in> measure (\<lambda>(line, start, tokens). length line - start)" for tokens
    by simp
qed auto

declare tokenise_loop.simps [simp del]

definition tokenise :: "string \<Rightarrow> string list" where
  "tokenise line = tokenise_loop line 0 []"

section \<open>Python values and operators\<close>

text \<open>
  The values the evaluator handles: \<^verbatim>\<open>None\<close>, unbounded integers, floats, and the
  complex numbers that \<^verbatim>\<open>float ** float\<close> yields for a negative base with a fractional
  exponent. Floats are modelled by the real numbers they denote: rounding, overflow,
  infinities and NaN are outside this model. The exceptions are the ones that the
  operators, the dictionary lookups and the attribute accesses of the program raise.
\<close>

datatype val = VNone | VInt int | VFloat real | VComplex complex

datatype exc = TypeError | ValueError | ZeroDivisionError | KeyError | AttributeError

text \<open>Truth value of a number or \<^verbatim>\<open>None\<close> in a condition (\<^verbatim>\<open>if y:\<close>).\<close>

fun truthy :: "val \<Rightarrow> bool" where
  "truthy VNone = False"
| "truthy (VInt n) = (n \<noteq> 0)"
| "truthy (VFloat r) = (r \<noteq> 0)"
| "truthy (VComplex c) = (c \<noteq> 0)"

text \<open>\<^verbatim>\<open>float(v)\<close> and \<^verbatim>\<open>int(v)\<close>; the latter truncates a float towards zero.\<close>

fun py_float :: "val \<Rightarrow> exc + real" where
  "py_float VNone = Inl TypeError"
| "py_float (VInt n) = Inr (of_int n)"
| "py_float (VFloat r) = Inr r"
| "py_float (VComplex c) = Inl TypeError"

fun py_int :: "val \<Rightarrow> exc + int" where
  "py_int VNone = Inl TypeError"
| "py_int (VInt n) = Inr n"
| "py_int (VFloat r) = Inr (if 0 \<le> r then \<lfloor>r\<rfloor> else \<lceil>r\<rceil>)"
| "py_int (VComplex c) = Inl TypeError"

text \<open>The numeric tower: an operand as a float, or as a complex number.\<close>

fun as_real :: "val \<Rightarrow> real option" where
  "as_real (VInt n) = Some (of_int n)"
| "as_real (VFloat r) = Some r"
| "as_real v = None"

fun as_complex :: "val \<Rightarrow> complex option" where
  "as_complex (VInt n) = Some (of_int n)"
| "as_complex (VFloat r) = Some (of_real r)"
| "as_complex (VComplex c) = Some c"
| "as_complex VNone = None"

text \<open>
  \<^verbatim>\<open>x - y\<close> and \<^verbatim>\<open>x * y\<close>: two integers give an integer, otherwise the operands are
  promoted to float, otherwise to complex; \<^verbatim>\<open>None\<close> is a \<^verbatim>\<open>TypeError\<close>.
\<close>

definition py_arith ::
  "(int \<Rightarrow> int \<Rightarrow> int) \<Rightarrow> (real \<Rightarrow> real \<Rightarrow> real) \<Rightarrow> (complex \<Rightarrow> complex \<Rightarrow> complex) \<Rightarrow>
   val \<Rightarrow> val \<Rightarrow> exc + val" where
  "py_arith fi fr fc x y =
     (case (x, y) of
        (VInt a, VInt b) \<Rightarrow> Inr (VInt (fi a b))
      | _ \<Rightarrow>
        (case (as_real x, as_real y) of
           (Some a, Some b) \<Rightarrow> Inr (VFloat (fr a b))
         | _ \<Rightarrow>
           (case (as_complex x, as_complex y) of
              (Some a, Some b) \<Rightarrow> Inr (VComplex (fc a b))
            | _ \<Rightarrow> Inl TypeError)))"

definition py_sub :: "val \<Rightarrow> val \<Rightarrow> exc + val" where
  "py_sub x y = py_arith (\<lambda>a b. a - b) (\<lambda>a b. a - b) (\<lambda>a b. a - b) x y"

definition py_mul :: "val \<Rightarrow> val \<Rightarrow> exc + val" where
  "py_mul x y = py_arith (\<lambda>a b. a * b) (\<lambda>a b. a * b) (\<lambda>a b. a * b) x y"

text \<open>The bitwise operators \<^verbatim>\<open>| ^ &\<close> and the shifts are defined on two integers only.\<close>

definition py_bitop :: "(int \<Rightarrow> int \<Rightarrow> int) \<Rightarrow> val \<Rightarrow> val \<Rightarrow> exc + val" where
  "py_bitop f x y = (case (x, y) of (VInt a, VInt b) \<Rightarrow> Inr (VInt (f a b)) | _ \<Rightarrow> Inl TypeError)"

definition py_shift :: "(nat \<Rightarrow> int \<Rightarrow> int) \<Rightarrow> val \<Rightarrow> val \<Rightarrow> exc + val" where
  "py_shift f x y =
     (case (x, y) of
        (VInt a, VInt b) \<Rightarrow> if b < 0 then Inl ValueError else Inr (VInt (f (nat b) a))
      | _ \<Rightarrow> Inl TypeError)"

text \<open>\<^verbatim>\<open>x / d\<close> for a float \<open>d\<close>.\<close>

fun py_truediv :: "val \<Rightarrow> real \<Rightarrow> exc + val" where
  "py_truediv VNone d = Inl TypeError"
| "py_truediv (VInt a) d = (if d = 0 then Inl ZeroDivisionError else Inr (VFloat (of_int a / d)))"
| "py_truediv (VFloat a) d = (if d = 0 then Inl ZeroDivisionError else Inr (VFloat (a / d)))"
| "py_truediv (VComplex a) d = (if d = 0 then Inl ZeroDivisionError else Inr (VComplex (a / of_real d)))"

text \<open>
  \<^verbatim>\<open>x % n\<close> for an integer \<open>n\<close>: the remainder has the sign of \<open>n\<close>, as \<open>mod\<close> on
  \<^typ>\<open>int\<close> has; a zero \<open>n\<close> raises \<^verbatim>\<open>ZeroDivisionError\<close>.
\<close>

fun py_mod :: "val \<Rightarrow> int \<Rightarrow> exc + val" where
  "py_mod VNone n = Inl TypeError"
| "py_mod (VInt a) n = (if n = 0 then Inl ZeroDivisionError else Inr (VInt (a mod n)))"
| "py_mod (VFloat a) n =
     (if n = 0 then Inl ZeroDivisionError
      else Inr (VFloat (a - of_int n * of_int \<lfloor>a / of_int n\<rfloor>)))"
| "py_mod (VComplex a) n = Inl TypeError"

text \<open>Unary \<^verbatim>\<open>+y\<close> and \<^verbatim>\<open>-y\<close>, and \<^verbatim>\<open>~n\<close> on an integer.\<close>

fun py_pos :: "val \<Rightarrow> exc + val" where
  "py_pos VNone = Inl TypeError"
| "py_pos v = Inr v"

fun py_neg :: "val \<Rightarrow> exc + val" where
  "py_neg VNone = Inl TypeError"
| "py_neg (VInt n) = Inr (VInt (- n))"
| "py_neg (VFloat r) = Inr (VFloat (- r))"
| "py_neg (VComplex c) = Inr (VComplex (- c))"

definition py_invert :: "int \<Rightarrow> int" where
  "py_invert n = NOT n"

text \<open>
  \<^verbatim>\<open>a ** b\<close> on two floats: a zero base with a negative exponent raises
  \<^verbatim>\<open>ZeroDivisionError\<close>; a negative base with a fractional exponent gives a complex
  number; everything else is the real power.
\<close>

definition py_pow :: "real \<Rightarrow> real \<Rightarrow> exc + val" where
  "py_pow a b =
     (if a = 0 \<and> b < 0 then Inl ZeroDivisionError
      else if b = of_int \<lfloor>b\<rfloor> then
        Inr (VFloat (if 0 \<le> b then a ^ nat \<lfloor>b\<rfloor> else inverse (a ^ nat (- \<lfloor>b\<rfloor>))))
      else if a < 0 then Inr (VComplex (of_real a powr of_real b))
      else Inr (VFloat (a powr b)))"

section \<open>Numeric literals\<close>

text \<open>
  \<^verbatim>\<open>int(s, base)\<close> and \<^verbatim>\<open>float(s)\<close> on the text of a token. A token holds no
  whitespace, sign or underscore (the scan of \<^verbatim>\<open>tokenise\<close> admits none), so those parts
  of Python's literal grammar are left out: such a string is a \<^verbatim>\<open>ValueError\<close> here.
\<close>

definition digit_val :: "char \<Rightarrow> nat option" where
  "digit_val c =
     (let n = (of_char c :: nat) in
      if 48 \<le> n \<and> n \<le> 57 then Some (n - 48)
      else if 97 \<le> n \<and> n \<le> 122 then Some (n - 87)
      else if 65 \<le> n \<and> n \<le> 90 then Some (n - 55)
      else None)"

fun digits_val :: "nat \<Rightarrow> string \<Rightarrow> nat \<Rightarrow> nat option" where
  "digits_val base [] acc = Some acc"
| "digits_val base (c # cs) acc =
     (case digit_val c of
        None \<Rightarrow> None
      | Some d \<Rightarrow> if d < base then digits_val base cs (acc * base + d) else None)"

definition base_prefixes :: "nat \<Rightarrow> string list" where
  "base_prefixes base =
     (if base = 16 then [''0x'', ''0X'']
      else if base = 8 then [''0o'', ''0O'']
      else if base = 2 then [''0b'', ''0B'']
      else [])"

definition py_int_str :: "string \<Rightarrow> nat \<Rightarrow> exc + val" where
  "py_int_str s base =
     (let body = (if take 2 s \<in> set (base_prefixes base) then drop 2 s else s) in
      if body = [] then Inl ValueError
      else case digits_val base body 0 of
             None \<Rightarrow> Inl ValueError
           | Some n \<Rightarrow> Inr (VInt (int n)))"

definition is_digit :: "char \<Rightarrow> bool" where
  "is_digit c = (48 \<le> (of_char c :: nat) \<and> (of_char c :: nat) \<le> 57)"

definition dec_val :: "string \<Rightarrow> nat" where
  "dec_val ds = (case digits_val 10 ds 0 of None \<Rightarrow> 0 | Some n \<Rightarrow> n)"

text \<open>
  \<^verbatim>\<open>float(s)\<close>: decimal digits with an optional point (a digit on at least one side of
  it), then an optional exponent \<^verbatim>\<open>e\<close> or \<^verbatim>\<open>E\<close> with an optional sign and at least one
  digit.
\<close>

definition py_float_exp :: "real \<Rightarrow> string \<Rightarrow> exc + val" where
  "py_float_exp m r =
     (case r of
        [] \<Rightarrow> Inr (VFloat m)
      | c # t \<Rightarrow>
          if c = CHR ''e'' \<or> c = CHR ''E'' then
            (let neg = (take 1 t = ''-'');
                 ds = (if take 1 t = ''-'' \<or> take 1 t = ''+'' then drop 1 t else t) in
             if ds = [] \<or> \<not> list_all is_digit ds then Inl ValueError
             else if neg then Inr (VFloat (m / 10 ^ dec_val ds))
             else Inr (VFloat (m * 10 ^ dec_val ds)))
          else Inl ValueError)"

definition py_float_str :: "string \<Rightarrow> exc + val" where
  "py_float_str s =
     (let ip = takeWhile is_digit s;
          r1 = dropWhile is_digit s;
          fp = (if take 1 r1 = ''.'' then takeWhile is_digit (drop 1 r1) else []);
          r2 = (if take 1 r1 = ''.'' then dropWhile is_digit (drop 1 r1) else r1) in
      if ip = [] \<and> fp = [] then Inl ValueError
      else py_float_exp (real (dec_val ip) + real (dec_val fp) / 10 ^ length fp) r2)"

text \<open>\<^verbatim>\<open>to_number\<close>, test by test as in the source.\<close>

definition to_number :: "string \<Rightarrow> exc + val" where
  "to_number tok =
     (if take 2 tok = ''0x'' then py_int_str (drop 2 tok) 16
      else if take 2 tok = ''0X'' then py_int_str (drop 2 tok) 16
      else if take 2 tok = ''0o'' then py_int_str (drop 2 tok) 8
      else if take 2 tok = ''0b'' then py_int_str (drop 2 tok) 2
      else if CHR ''.'' \<in> set tok then py_float_str tok
      else if CHR ''e'' \<in> set tok then py_float_str tok
      else if CHR ''E'' \<in> set tok then py_float_str tok
      else py_int_str tok 10)"


section \<open>Expression trees\<close>

text \<open>
  The class \<^verbatim>\<open>Expr\<close>: four attributes, each of which may be \<^verbatim>\<open>None\<close>. The
  constructor's annotation makes \<^verbatim>\<open>tok\<close> a string, and the parser stores token strings
  only, so the branch of \<^verbatim>\<open>evaluate\<close> for a \<^verbatim>\<open>tok\<close> that is already a number has
  no counterpart here.
\<close>

datatype expr = Expr (tok: "string option") (op: "string option") (left: "expr option") (right: "expr option")

text \<open>
  Truth value of an attribute in a condition: a string is true unless it is \<^verbatim>\<open>None\<close> or
  empty; an \<^verbatim>\<open>Expr\<close> object (the class defines neither \<^verbatim>\<open>__bool__\<close> nor
  \<^verbatim>\<open>__len__\<close>) is true unless it is \<^verbatim>\<open>None\<close>.
\<close>

definition str_true :: "string option \<Rightarrow> bool" where
  "str_true s = (s \<noteq> None \<and> s \<noteq> Some [])"

definition is_empty :: "expr \<Rightarrow> bool" where
  "is_empty self =
     (if str_true (tok self) then False
      else if str_true (op self) then False
      else if left self \<noteq> None then False
      else if right self \<noteq> None then False
      else True)"

definition is_token :: "expr \<Rightarrow> bool" where
  "is_token self = (if str_true (tok self) then True else False)"

definition is_unary_expr :: "expr \<Rightarrow> bool" where
  "is_unary_expr self = (if str_true (op self) \<and> left self = None \<and> right self \<noteq> None then True else False)"

definition is_parenth_expr :: "expr \<Rightarrow> bool" where
  "is_parenth_expr self = (if \<not> str_true (op self) \<and> left self = None \<and> right self \<noteq> None then True else False)"

definition is_binary_exprs :: "expr \<Rightarrow> bool" where
  "is_binary_exprs self = (if str_true (op self) \<and> left self \<noteq> None \<and> right self \<noteq> None then True else False)"

text \<open>\<^verbatim>\<open>__str__\<close> (and \<^verbatim>\<open>__repr__\<close>); \<^verbatim>\<open>s[:-1]\<close> drops the last character.\<close>

fun str_of_expr :: "expr \<Rightarrow> string" where
  "str_of_expr (Expr t opr l r) =
     (let s0 = ''('';
          s1 = (if str_true t then s0 @ ''Token: '' @ the t @ '' '' else s0);
          s2 = (case l of None \<Rightarrow> s1 | Some e \<Rightarrow> s1 @ ''Left: '' @ str_of_expr e @ '' '');
          s3 = (if str_true opr then s2 @ ''Op: '' @ the opr @ '' '' else s2);
          s4 = (case r of None \<Rightarrow> s3 | Some e \<Rightarrow> s3 @ ''Right: '' @ str_of_expr e @ '' '')
      in butlast s4 @ '')'')"

section \<open>The evaluator\<close>

text \<open>
  \<^verbatim>\<open>print\<close> appends a line to the output, which every function that prints takes and
  returns. An exception ends the evaluation: \<open>Inl\<close>.
\<close>

definition quote :: string where
  "quote = [CHR 0x27]"

text \<open>
  The dispatch on \<^verbatim>\<open>self.op\<close> at the end of \<^verbatim>\<open>evaluate\<close>, for the operand values
  \<open>x\<close> and \<open>y\<close>. The line for \<^verbatim>\<open>'+'\<close> computes \<^verbatim>\<open>x - y\<close>, as the source does.
\<close>

definition lift_val :: "exc + val \<Rightarrow> string list \<Rightarrow> exc + (val \<times> string list)" where
  "lift_val r out = (case r of Inl e \<Rightarrow> Inl e | Inr v \<Rightarrow> Inr (v, out))"

definition eval_op :: "string \<Rightarrow> val \<Rightarrow> val \<Rightarrow> string list \<Rightarrow> exc + (val \<times> string list)" where
  "eval_op opr x y out =
     (if opr = ''|'' then lift_val (py_bitop (\<lambda>a b. a OR b) x y) out
      else if opr = ''^'' then lift_val (py_bitop (\<lambda>a b. a XOR b) x y) out
      else if opr = ''&'' then lift_val (py_bitop (\<lambda>a b. a AND b) x y) out
      else if opr = ''<<'' then lift_val (py_shift push_bit x y) out
      else if opr = ''>>'' then lift_val (py_shift drop_bit x y) out
      else if opr = ''+'' then lift_val (py_sub x y) out
      else if opr = ''-'' then lift_val (py_sub x y) out
      else if opr = ''*'' then lift_val (py_mul x y) out
      else if opr = ''/'' then
        (if truthy y then
           (case py_float y of Inl e \<Rightarrow> Inl e | Inr d \<Rightarrow> lift_val (py_truediv x d) out)
         else Inr (VNone, out @ [''Error: division by zero.'']))
      else if opr = ''%'' then
        (if truthy y then
           (case py_int y of Inl e \<Rightarrow> Inl e | Inr n \<Rightarrow> lift_val (py_mod x n) out)
         else Inr (VNone, out @ [''Error: modulo by zero.'']))
      else if opr = ''+ x'' then lift_val (py_pos y) out
      else if opr = ''- x'' then lift_val (py_neg y) out
      else if opr = ''~ x'' then
        (case py_int y of Inl e \<Rightarrow> Inl e | Inr n \<Rightarrow> Inr (VInt (py_invert n), out))
      else if opr = ''**'' then
        (case py_float x of
           Inl e \<Rightarrow> Inl e
         | Inr a \<Rightarrow> (case py_float y of Inl e \<Rightarrow> Inl e | Inr b \<Rightarrow> lift_val (py_pow a b) out))
      else Inr (VNone, out @ [''Error: evaluating'']))"

text \<open>
  The branch \<^verbatim>\<open>if not self.op\<close> of a node with a right child: the two conversions
  \<^verbatim>\<open>float(x)\<close> and \<^verbatim>\<open>float(y)\<close> can only raise; then a message and \<^verbatim>\<open>None\<close>.
\<close>

definition eval_leaf :: "val \<Rightarrow> val \<Rightarrow> string list \<Rightarrow> exc + (val \<times> string list)" where
  "eval_leaf x y out =
     (case (if truthy x then py_float x else Inr 0) of
        Inl e \<Rightarrow> Inl e
      | Inr _ \<Rightarrow>
        (case (if truthy y then py_float y else Inr 0) of
           Inl e \<Rightarrow> Inl e
         | Inr _ \<Rightarrow> Inr (VNone, out @ [''Parse error: leaf node wasn'' @ quote @ ''t a literal number.''])))"

text \<open>
  \<^verbatim>\<open>Expr.evaluate\<close>. The tests come in the order of the source; \<open>the\<close> is applied to
  an attribute only below a test that the attribute is not \<^verbatim>\<open>None\<close>.
\<close>

function evaluate :: "expr \<Rightarrow> string list \<Rightarrow> exc + (val \<times> string list)" where
  "evaluate self out =
     (if is_token self then lift_val (to_number (the (tok self))) out
      else if is_parenth_expr self then evaluate (the (right self)) out
      else if str_true (op self) \<and> left self = None \<and> right self = None then
        Inr (VNone, out @ [''Error: '' @ str_of_expr self @ '' has too few items.''])
      else
        (case (if left self = None then Inr (VNone, out)
               else if is_empty (the (left self)) then Inr (VNone, out)
               else evaluate (the (left self)) out) of
           Inl e \<Rightarrow> Inl e
         | Inr (x, out1) \<Rightarrow>
             if right self = None then Inr (x, out1)
             else
               (case (if is_empty (the (right self)) then Inr (VNone, out1)
                      else evaluate (the (right self)) out1) of
                  Inl e \<Rightarrow> Inl e
                | Inr (y, out2) \<Rightarrow>
                    if \<not> str_true (op self) then eval_leaf x y out2
                    else eval_op (the (op self)) x y out2)))"
  by pat_completeness auto

lemma size_right: "right self = Some e \<Longrightarrow> size e < size self"
  by (cases self) simp

lemma size_left: "left self = Some e \<Longrightarrow> size e < size self"
  by (cases self) simp

termination evaluate
proof (relation "measure (\<lambda>(self, out). size self)")
  show "wf (measure (\<lambda>(self, out). size self))" by simp
next
  fix self :: expr and out :: "string list"
  assume "is_parenth_expr self"
  then obtain e where "right self = Some e"
    by (auto simp: is_parenth_expr_def split: if_splits)
  then show "((the (right self), out), (self, out)) \<in> measure (\<lambda>(self, out). size self)"
    using size_right by simp
next
  fix self :: expr and out :: "string list"
  assume "left self \<noteq> None"
  then obtain e where "left self = Some e" by auto
  then show "((the (left self), out), (self, out)) \<in> measure (\<lambda>(self, out). size self)"
    using size_left by simp
next
  fix self :: expr and out out1 :: "string list"
  assume "right self \<noteq> None"
  then obtain e where "right self = Some e" by auto
  then show "((the (right self), out1), (self, out)) \<in> measure (\<lambda>(self, out). size self)"
    using size_right by simp
qed

declare evaluate.simps [simp del]


section \<open>The parser\<close>

text \<open>
  The class \<^verbatim>\<open>Parser\<close>: the token list and the cursor. The third field is the
  output that \<^verbatim>\<open>parse_error\<close> prints to, carried with the state.
\<close>

record Parser =
  current_tokens :: "string list"
  current_index :: nat
  printed :: "string list"

definition Parser_init :: "string list \<Rightarrow> Parser" where
  "Parser_init tokens = \<lparr>current_tokens = tokens, current_index = 0, printed = []\<rparr>"

definition parse_error :: "string \<Rightarrow> Parser \<Rightarrow> Parser" where
  "parse_error s self = self\<lparr>printed := printed self @ [''Parse error: '' @ s]\<rparr>"

definition get_curr_token :: "Parser \<Rightarrow> string option" where
  "get_curr_token self =
     (if current_index self < length (current_tokens self)
      then Some (current_tokens self ! current_index self)
      else None)"

definition get_next_token :: "Parser \<Rightarrow> Parser" where
  "get_next_token self = self\<lparr>current_index := current_index self + 1\<rparr>"

definition dquote :: string where
  "dquote = [CHR 0x22]"

definition Expr_empty :: expr where
  "Expr_empty = Expr None None None None"

definition next_op :: "expr \<Rightarrow> Parser \<Rightarrow> (string \<times> expr option) option" where
  "next_op lhs self =
     (if is_token lhs \<and> Op_Table (the (tok lhs)) \<noteq> None then Some (the (tok lhs), None)
      else
        (case get_curr_token self of
           None \<Rightarrow> None
         | Some tk \<Rightarrow> if Op_Table tk = None then None else Some (tk, Some lhs)))"

definition fold_lhs ::
  "kind \<Rightarrow> associativity \<Rightarrow> nat \<Rightarrow> string \<Rightarrow> expr option \<Rightarrow> expr option \<Rightarrow> exc + expr" where
  "fold_lhs kind associativity precedence opr lhs rhs =
     (if kind = UNARYOP then Inr (Expr None (Some opr) None rhs)
      else
        (case lhs of
           None \<Rightarrow> Inl AttributeError
         | Some l \<Rightarrow>
             if is_token l then Inr (Expr None (Some opr) (Some l) rhs)
             else if is_parenth_expr l then Inr (Expr None (Some opr) (right l) rhs)
             else
               (case (case op l of None \<Rightarrow> None | Some prev_op \<Rightarrow> Op_Table prev_op) of
                  None \<Rightarrow> Inl KeyError
                | Some (prev_kind, prev_associativity, prev_precedence) \<Rightarrow>
                    if prev_kind = BINARYOP \<and> prev_associativity = associativity
                       \<and> prev_precedence = precedence
                    then Inr (Expr None (Some opr) (Some l) rhs)
                    else if kind = UNARYOP then Inl TypeError
                    else if kind = BINARYOP then Inr (Expr None (Some opr) (Some l) rhs)
                    else Inr l)))"

function parse_atom :: "nat \<Rightarrow> Parser \<Rightarrow> exc + (expr \<times> Parser)"
  and parse_expr :: "nat \<Rightarrow> Parser \<Rightarrow> exc + (expr option \<times> Parser)"
  and parse_loop :: "nat \<Rightarrow> expr \<Rightarrow> Parser \<Rightarrow> exc + (expr option \<times> Parser)"
where
  "parse_atom min_prec self =
     (case get_curr_token self of
        None \<Rightarrow> Inr (Expr_empty, parse_error ''source ended unexpectedly'' self)
      | Some tk \<Rightarrow>
          if tk = ''('' then
            (case parse_expr 0 (get_next_token self) of
               Inl e \<Rightarrow> Inl e
             | Inr (subexpr, self1) \<Rightarrow>
                 Inr (Expr None None None subexpr,
                      get_next_token
                        (if get_curr_token self1 \<noteq> Some '')''
                         then parse_error (''unmatched '' @ dquote @ ''('' @ dquote) self1
                         else self1)))
          else if tk \<in> set [''-'', ''+'', ''~'', ''not''] then
            (case Op_Table (tk @ '' x'') of
               None \<Rightarrow> Inl KeyError
             | Some (kind, associativity, precedence) \<Rightarrow>
                 (case parse_expr precedence (get_next_token self) of
                    Inl e \<Rightarrow> Inl e
                  | Inr (subexpr, self1) \<Rightarrow> Inr (Expr None (Some (tk @ '' x'')) None subexpr, self1)))
          else if Op_Table tk \<noteq> None then
            Inr (Expr_empty,
                 parse_error (''expected an atom, not an operator '' @ dquote @ tk @ dquote) self)
          else Inr (Expr (Some tk) None None None, get_next_token self))"
| "parse_expr min_prec self =
     (case parse_atom min_prec self of
        Inl e \<Rightarrow> Inl e
      | Inr (lhs, self1) \<Rightarrow> parse_loop min_prec lhs self1)"
| "parse_loop min_prec lhs self =
     (case next_op lhs self of
        None \<Rightarrow> Inr (Some lhs, self)
      | Some (opr, lhs1) \<Rightarrow>
          (case Op_Table opr of
             None \<Rightarrow> Inl KeyError
           | Some (kind, associativity, precedence) \<Rightarrow>
               if precedence < min_prec then Inr (lhs1, self)
               else
                 (case parse_expr (if associativity = LEFT then precedence + 1 else precedence)
                         (get_next_token self) of
                    Inl e \<Rightarrow> Inl e
                  | Inr (rhs, self1) \<Rightarrow>
                      (case fold_lhs kind associativity precedence opr lhs1 rhs of
                         Inl e \<Rightarrow> Inl e
                       | Inr lhs2 \<Rightarrow> parse_loop min_prec lhs2 self1))))"
  by pat_completeness auto


definition remaining :: "Parser \<Rightarrow> nat" where
  "remaining self = length (current_tokens self) - current_index self"

definition keeps :: "Parser \<Rightarrow> Parser \<Rightarrow> bool" where
  "keeps self self1 =
     (current_tokens self1 = current_tokens self \<and> current_index self \<le> current_index self1
      \<and> length (printed self) \<le> length (printed self1))"

definition op_token :: "expr \<Rightarrow> bool" where
  "op_token lhs = (is_token lhs \<and> Op_Table (the (tok lhs)) \<noteq> None)"

lemma keeps_refl: "keeps self self"
  by (simp add: keeps_def)

lemma keeps_trans: "keeps a b \<Longrightarrow> keeps b c \<Longrightarrow> keeps a c"
  by (auto simp: keeps_def)

lemma keeps_next: "keeps self (get_next_token self)"
  by (simp add: keeps_def get_next_token_def)

lemma keeps_error: "keeps self (parse_error s self)"
  by (simp add: keeps_def parse_error_def)

lemma keeps_next_I: "keeps a b \<Longrightarrow> keeps a (get_next_token b)"
  by (simp add: keeps_def get_next_token_def)

lemma keeps_error_I: "keeps a b \<Longrightarrow> keeps a (parse_error s b)"
  by (simp add: keeps_def parse_error_def)

lemma keeps_next_D: "keeps (get_next_token a) b \<Longrightarrow> keeps a b"
  by (simp add: keeps_def get_next_token_def)

lemma keeps_remaining: "keeps a b \<Longrightarrow> remaining b \<le> remaining a"
  by (auto simp: keeps_def remaining_def)

lemma remaining_next:
  "get_curr_token self = Some t \<Longrightarrow> remaining (get_next_token self) < remaining self"
  by (auto simp: get_curr_token_def get_next_token_def remaining_def split: if_splits)

lemma op_token_simps:
  "\<not> op_token Expr_empty" "\<not> op_token (Expr None a b c)"
  "op_token (Expr (Some t) a b c) = (t \<noteq> [] \<and> Op_Table t \<noteq> None)"
  by (auto simp: op_token_def is_token_def str_true_def Expr_empty_def)

lemma parse_keeps_partial:
  "parse_atom_parse_expr_parse_loop_dom (Inl (m1, s1)) \<Longrightarrow>
     (\<forall>e s'. parse_atom m1 s1 = Inr (e, s') \<longrightarrow> keeps s1 s' \<and> \<not> op_token e)"
  "parse_atom_parse_expr_parse_loop_dom (Inr (Inl (m2, s2))) \<Longrightarrow>
     (\<forall>e s'. parse_expr m2 s2 = Inr (e, s') \<longrightarrow> keeps s2 s')"
  "parse_atom_parse_expr_parse_loop_dom (Inr (Inr (m3, l3, s3))) \<Longrightarrow>
     (\<forall>e s'. parse_loop m3 l3 s3 = Inr (e, s') \<longrightarrow> keeps s3 s')"
proof (induction rule: parse_atom_parse_expr_parse_loop.pinduct)
  case (1 min_prec self)
  show ?case
  proof (intro allI impI)
    fix e s' assume r: "parse_atom min_prec self = Inr (e, s')"
    show "keeps self s' \<and> \<not> op_token e"
    proof (cases "get_curr_token self")
      case None
      with r "1.hyps" show ?thesis
        by (auto simp: parse_atom.psimps keeps_error op_token_simps)
    next
      case (Some t)
      show ?thesis
      proof (cases "t = ''(''")
        case True
        from "1.IH"(1) [OF Some True] r "1.hyps" Some True show ?thesis
          by (auto simp: parse_atom.psimps op_token_simps split: sum.splits prod.splits
              intro!: keeps_next_I keeps_error_I dest: keeps_next_D)
      next
        case False
        show ?thesis
        proof (cases "t \<in> set [''-'', ''+'', ''~'', ''not'']")
          case unary: True
          show ?thesis
          proof (cases "Op_Table (t @ '' x'')")
            case None
            with r "1.hyps" Some False unary show ?thesis
              by (simp add: parse_atom.psimps)
          next
            case (Some entry)
            obtain k a p where entry: "entry = (k, a, p)" by (cases entry) auto
            have ih: "\<forall>e s'. parse_expr p (get_next_token self) = Inr (e, s') \<longrightarrow>
                keeps (get_next_token self) s'"
              using "1.IH"(2) [OF \<open>get_curr_token self = Some t\<close> False unary Some, of k "(a, p)" a p] entry
              by simp
            from r "1.hyps" \<open>get_curr_token self = Some t\<close> False unary Some entry ih
            show ?thesis
              by (auto simp: parse_atom.psimps op_token_simps split: sum.splits prod.splits
                  dest: keeps_next_D)
          qed
        next
          case other: False
          with r "1.hyps" Some False show ?thesis
            by (auto simp: parse_atom.psimps op_token_simps keeps_next keeps_error split: if_splits)
        qed
      qed
    qed
  qed
next
  case (2 min_prec self)
  show ?case
    using "2.hyps" "2.IH"
    by (auto simp: parse_expr.psimps split: sum.splits prod.splits intro: keeps_trans)
next
  case (3 min_prec lhs self)
  show ?case
  proof (intro allI impI)
    fix e s' assume r: "parse_loop min_prec lhs self = Inr (e, s')"
    note ps = parse_loop.psimps [OF "3.hyps"]
    show "keeps self s'"
    proof (cases "next_op lhs self")
      case None
      with r ps show ?thesis by (auto simp: keeps_refl)
    next
      case (Some c)
      obtain opr lhs1 where c: "c = (opr, lhs1)" by (cases c) auto
      show ?thesis
      proof (cases "Op_Table opr")
        case None
        with r ps Some c show ?thesis by simp
      next
        case entry: (Some en)
        obtain k a p where en: "en = (k, a, p)" by (cases en) auto
        show ?thesis
        proof (cases "p < min_prec")
          case True
          with r ps Some c entry en show ?thesis by (auto simp: keeps_refl)
        next
          case False
          define np where "np = (if a = LEFT then p + 1 else p)"
          have ih1: "\<forall>e s'. parse_expr np (get_next_token self) = Inr (e, s') \<longrightarrow>
              keeps (get_next_token self) s'"
            unfolding np_def
            by (rule "3.IH"(1) [OF Some c [symmetric] entry en [symmetric] refl False])
          have eq: "parse_loop min_prec lhs self =
              (case parse_expr np (get_next_token self) of
                 Inl e \<Rightarrow> Inl e
               | Inr (rhs, self1) \<Rightarrow>
                   (case fold_lhs k a p opr lhs1 rhs of
                      Inl e \<Rightarrow> Inl e
                    | Inr lhs2 \<Rightarrow> parse_loop min_prec lhs2 self1))"
            by (simp add: ps Some c entry en False np_def)
          show ?thesis
          proof (cases "parse_expr np (get_next_token self)")
            case (Inl x)
            with r eq show ?thesis by simp
          next
            case (Inr res)
            obtain rhs s1 where res: "res = (rhs, s1)" by (cases res) auto
            have k1: "keeps self s1"
              using ih1 Inr res by (auto dest: keeps_next_D)
            show ?thesis
            proof (cases "fold_lhs k a p opr lhs1 rhs")
              case (Inl x)
              with r eq \<open>parse_expr np (get_next_token self) = Inr res\<close> res
              show ?thesis by simp
            next
              case lhs2: (Inr lhs2)
              have "\<forall>e s'. parse_loop min_prec lhs2 s1 = Inr (e, s') \<longrightarrow> keeps s1 s'"
                by (rule "3.IH"(2) [OF Some c [symmetric] entry en [symmetric] refl False
                      Inr [unfolded np_def] res [symmetric] lhs2])
              moreover have "parse_loop min_prec lhs2 s1 = Inr (e, s')"
                using r eq Inr res lhs2 by simp
              ultimately show ?thesis using k1 by (blast intro: keeps_trans)
            qed
          qed
        qed
      qed
    qed
  qed
qed


definition parse_rank :: "(nat \<times> Parser) + (nat \<times> Parser) + (nat \<times> expr \<times> Parser) \<Rightarrow> nat \<times> nat" where
  "parse_rank x =
     (case x of
        Inl (m, s) \<Rightarrow> (remaining s, 1)
      | Inr (Inl (m, s)) \<Rightarrow> (remaining s, 2)
      | Inr (Inr (m, l, s)) \<Rightarrow> (remaining s, if op_token l then 3 else 0))"

lemma next_op_cases:
  "next_op lhs self = Some (opr, lhs1) \<Longrightarrow>
     (op_token lhs \<and> lhs1 = None) \<or> (\<not> op_token lhs \<and> lhs1 = Some lhs \<and> get_curr_token self = Some opr)"
  by (auto simp: next_op_def op_token_def split: if_splits option.splits)

lemma fold_lhs_None:
  "fold_lhs k a p opr None rhs = Inr lhs2 \<Longrightarrow> \<not> op_token lhs2"
  by (auto simp: fold_lhs_def op_token_simps split: if_splits)

lemma parse_total: "All parse_atom_parse_expr_parse_loop_dom"
proof (relation "inv_image (less_than <*lex*> less_than) parse_rank")
  show "wf (inv_image (less_than <*lex*> less_than) parse_rank)" by (intro wf_inv_image wf_lex_prod wf_less_than)
next
  fix min_prec self t
  assume "get_curr_token self = Some t"
  then show "(Inr (Inl (0, get_next_token self)), Inl (min_prec, self))
      \<in> inv_image (less_than <*lex*> less_than) parse_rank"
    by (simp add: parse_rank_def remaining_next)
next
  fix min_prec self t precedence
  assume "get_curr_token self = Some t"
  then show "(Inr (Inl (precedence, get_next_token self)), Inl (min_prec, self))
      \<in> inv_image (less_than <*lex*> less_than) parse_rank"
    by (simp add: parse_rank_def remaining_next)
next
  fix min_prec self
  show "(Inl (min_prec, self), Inr (Inl (min_prec, self)))
      \<in> inv_image (less_than <*lex*> less_than) parse_rank"
    by (simp add: parse_rank_def)
next
  fix min_prec self b lhs self1
  assume "parse_atom_parse_expr_parse_loop_dom (Inl (min_prec, self))"
    and "parse_atom min_prec self = Inr b" and "(lhs, self1) = b"
  then have "keeps self self1 \<and> \<not> op_token lhs"
    using parse_keeps_partial(1) by auto
  then show "(Inr (Inr (min_prec, lhs, self1)), Inr (Inl (min_prec, self)))
      \<in> inv_image (less_than <*lex*> less_than) parse_rank"
    using keeps_remaining [of self self1] by (auto simp: parse_rank_def)
next
  fix min_prec lhs self c opr lhs1 and np :: nat
  assume "next_op lhs self = Some c" and "(opr, lhs1) = c"
  then have "next_op lhs self = Some (opr, lhs1)" by simp
  from next_op_cases [OF this]
  show "(Inr (Inl (np, get_next_token self)), Inr (Inr (min_prec, lhs, self)))
      \<in> inv_image (less_than <*lex*> less_than) parse_rank"
    using keeps_remaining [OF keeps_next, of self]
    by (auto simp: parse_rank_def dest: remaining_next)
next
  fix min_prec lhs self c opr lhs1 en k ap a p b rhs self1 lhs2
  assume "next_op lhs self = Some c" and "(opr, lhs1) = c"
    and "parse_atom_parse_expr_parse_loop_dom
          (Inr (Inl (if a = LEFT then p + 1 else p, get_next_token self)))"
    and "parse_expr (if a = LEFT then p + 1 else p) (get_next_token self) = Inr b"
    and "(rhs, self1) = b"
    and f: "fold_lhs k a p opr lhs1 rhs = Inr lhs2"
  then have n: "next_op lhs self = Some (opr, lhs1)" and k1: "keeps (get_next_token self) self1"
    using parse_keeps_partial(2) by auto
  from next_op_cases [OF n] f k1
  show "(Inr (Inr (min_prec, lhs2, self1)), Inr (Inr (min_prec, lhs, self)))
      \<in> inv_image (less_than <*lex*> less_than) parse_rank"
    using keeps_remaining [OF k1] keeps_remaining [OF keeps_next, of self]
    by (auto simp: parse_rank_def dest: remaining_next fold_lhs_None) 
qed

termination parse_atom
  by (rule parse_total)


declare parse_atom.simps [simp del] parse_expr.simps [simp del] parse_loop.simps [simp del]

text \<open>
  \<^verbatim>\<open>parse\<close>: no tokens give \<^verbatim>\<open>None\<close>; otherwise the tree is parsed from a fresh
  parser and evaluated. \<^verbatim>\<open>parse_expr\<close> can return \<^verbatim>\<open>None\<close>, on which
  \<^verbatim>\<open>expr.evaluate()\<close> is an \<^verbatim>\<open>AttributeError\<close>. The result carries the lines printed.
\<close>

definition parse :: "string \<Rightarrow> exc + (val \<times> string list)" where
  "parse line =
     (let tokens = tokenise line in
      if tokens = [] then Inr (VNone, [])
      else
        (case parse_expr 0 (Parser_init tokens) of
           Inl e \<Rightarrow> Inl e
         | Inr (None, parser) \<Rightarrow> Inl AttributeError
         | Inr (Some e, parser) \<Rightarrow> evaluate e (printed parser)))"


section \<open>Shapes of the nodes the parser builds\<close>

text \<open>
  The four constructor calls of the parser: \<^verbatim>\<open>Expr(tok=tok)\<close>, \<^verbatim>\<open>Expr(right=subexpr)\<close>,
  \<^verbatim>\<open>Expr(op=op, right=subexpr)\<close> and \<^verbatim>\<open>Expr(op=op, left=lhs, right=rhs)\<close>.
\<close>

abbreviation Leaf :: "string \<Rightarrow> expr" where
  "Leaf t \<equiv> Expr (Some t) None None None"

abbreviation Paren :: "expr \<Rightarrow> expr" where
  "Paren e \<equiv> Expr None None None (Some e)"

abbreviation Unary :: "string \<Rightarrow> expr \<Rightarrow> expr" where
  "Unary opr e \<equiv> Expr None (Some opr) None (Some e)"

abbreviation Binary :: "string \<Rightarrow> expr \<Rightarrow> expr \<Rightarrow> expr" where
  "Binary opr l r \<equiv> Expr None (Some opr) (Some l) (Some r)"

text \<open>The state in which a parser over \<open>tokens\<close> ends when it has consumed all of them silently.\<close>

abbreviation Parser_done :: "string list \<Rightarrow> Parser" where
  "Parser_done tokens \<equiv> \<lparr>current_tokens = tokens, current_index = length tokens, printed = []\<rparr>"

section \<open>Notions used in the statements\<close>


fun is_zero :: "val \<Rightarrow> bool" where
  "is_zero (VInt n) = (n = 0)"
| "is_zero (VFloat r) = (r = 0)"
| "is_zero v = False"

text \<open>A token is a predefined one or a nonempty run of number characters.\<close>

definition token_shape :: "string \<Rightarrow> bool" where
  "token_shape tk = (tk \<in> set Predefined_Tokens \<or> (tk \<noteq> [] \<and> set tk \<subseteq> set number_chars))"

text \<open>
  The same parser state inside a longer token list: \<open>pre\<close> before the tokens, \<open>suf\<close> after
  them, the cursor moved by the length of \<open>pre\<close>.
\<close>

definition extend :: "string list \<Rightarrow> string list \<Rightarrow> Parser \<Rightarrow> Parser" where
  "extend pre suf self =
     self\<lparr>current_tokens := pre @ current_tokens self @ suf,
          current_index := length pre + current_index self\<rparr>"

text \<open>The cursor is within the tokens or just behind them; no line was printed between two states.\<close>

definition in_bounds :: "Parser \<Rightarrow> bool" where
  "in_bounds self = (current_index self \<le> length (current_tokens self))"

definition quiet :: "Parser \<Rightarrow> Parser \<Rightarrow> bool" where
  "quiet self self1 = (length (printed self1) = length (printed self))"

text \<open>
  The value of \<^verbatim>\<open>start\<close> with which the loop of \<^verbatim>\<open>tokenise\<close> ends: the same loop as
  \<open>tokenise_loop\<close>, without the tokens. It is the length of the line unless the loop was
  left by its \<^verbatim>\<open>break\<close>.
\<close>

function tokenise_stop :: "string \<Rightarrow> nat \<Rightarrow> nat" where
  "tokenise_stop line start =
     (if start < length line then
        if line ! start \<in> set whitespace then tokenise_stop line (start + 1)
        else
          case find_punct Predefined_Tokens line start of
            Some tk \<Rightarrow> tokenise_stop line (start + length tk)
          | None \<Rightarrow>
              let i = scan_number line start in
              if i > start then tokenise_stop line i
              else start
      else start)"
  by pat_completeness auto
termination
proof (relation "measure (\<lambda>(line, start). length line - start)")
  fix line :: string and start :: nat and tk :: string
  assume "start < length line" and "find_punct Predefined_Tokens line start = Some tk"
  then have "length line - (start + length tk) < length line - start"
    using find_punct_nonempty [of line start tk] by arith
  then show "((line, start + length tk), (line, start))
      \<in> measure (\<lambda>(line, start). length line - start)"
    by simp
qed auto

declare tokenise_stop.simps [simp del]

text \<open>
  An expression text is accepted when the tokeniser reads the line to its end and the
  parser consumes every token without printing a parse error.
\<close>

definition accepted :: "string \<Rightarrow> bool" where
  "accepted line =
     (tokenise_stop line 0 = length line \<and>
      (case parse_expr 0 (Parser_init (tokenise line)) of
         Inl x \<Rightarrow> False
       | Inr (None, parser) \<Rightarrow> False
       | Inr (Some e, parser) \<Rightarrow>
           printed parser = [] \<and> current_index parser = length (tokenise line)))"

section \<open>Evaluation of the node shapes\<close>

lemma evaluate_Leaf: "t \<noteq> [] \<Longrightarrow> evaluate (Leaf t) out = lift_val (to_number t) out"
  by (subst evaluate.simps) (simp add: is_token_def str_true_def)

lemma evaluate_Paren: "evaluate (Paren e) out = evaluate e out"
  by (subst evaluate.simps) (simp add: is_token_def is_parenth_expr_def str_true_def)

lemma evaluate_Binary:
  assumes "opr \<noteq> []" and "\<not> is_empty l" and "\<not> is_empty r"
  shows "evaluate (Binary opr l r) out =
    (case evaluate l out of
       Inl e \<Rightarrow> Inl e
     | Inr (x, out1) \<Rightarrow>
         (case evaluate r out1 of
            Inl e \<Rightarrow> Inl e
          | Inr (y, out2) \<Rightarrow> eval_op opr x y out2))"
  using assms
  by (subst evaluate.simps)
     (simp add: is_token_def is_parenth_expr_def str_true_def split: sum.splits prod.splits)

lemma evaluate_Unary:
  assumes "opr \<noteq> []" and "\<not> is_empty e"
  shows "evaluate (Unary opr e) out =
    (case evaluate e out of Inl x \<Rightarrow> Inl x | Inr (y, out1) \<Rightarrow> eval_op opr VNone y out1)"
  using assms
  by (subst evaluate.simps)
     (simp add: is_token_def is_parenth_expr_def str_true_def split: sum.splits prod.splits)

section \<open>Addition\<close>

text \<open>
  C1. Evaluating \<^verbatim>\<open>Binary('+', x, y)\<close> should return the sum, and \<^verbatim>\<open>"1 + 2 * 3"\<close>
  should give 7 (the expectation of \<^verbatim>\<open>TestCalc.py\<close>). The source line for \<^verbatim>\<open>'+'\<close>
  returns \<^verbatim>\<open>x - y\<close>: on integer operands the node yields the difference, and
  \<^verbatim>\<open>"1 + 2 * 3"\<close> evaluates to \<open>1 - 6 = -5\<close>.
\<close>

theorem C1_plus_computes_difference:
  "eval_op ''+'' (VInt x) (VInt y) out = Inr (VInt (x - y), out)
   \<and> evaluate (Binary ''+'' (Leaf ''1'') (Leaf ''2'')) [] = Inr (VInt (- 1), [])
   \<and> parse ''1 + 2 * 3'' = Inr (VInt (- 5), [])"
proof -
  have "eval_op ''+'' (VInt x) (VInt y) out = Inr (VInt (x - y), out)"
    by (simp add: eval_op_def py_sub_def py_arith_def lift_val_def)
  moreover have "evaluate (Binary ''+'' (Leaf ''1'') (Leaf ''2'')) [] = Inr (VInt (- 1), [])"
    by code_simp
  moreover have "parse ''1 + 2 * 3'' = Inr (VInt (- 5), [])"
    by code_simp
  ultimately show ?thesis by blast
qed

section \<open>Precedence and associativity\<close>

lemma Op_Table_unfold:
  "Op_Table =
     [''|'' \<mapsto> (BINARYOP, LEFT, 1), ''^'' \<mapsto> (BINARYOP, LEFT, 2), ''&'' \<mapsto> (BINARYOP, LEFT, 3),
      ''<<'' \<mapsto> (BINARYOP, LEFT, 4), ''>>'' \<mapsto> (BINARYOP, LEFT, 4),
      ''+'' \<mapsto> (BINARYOP, LEFT, 5), ''-'' \<mapsto> (BINARYOP, LEFT, 5),
      ''*'' \<mapsto> (BINARYOP, LEFT, 6), ''/'' \<mapsto> (BINARYOP, LEFT, 6), ''%'' \<mapsto> (BINARYOP, LEFT, 6),
      ''+ x'' \<mapsto> (UNARYOP, RIGHT, 7), ''- x'' \<mapsto> (UNARYOP, RIGHT, 7), ''~ x'' \<mapsto> (UNARYOP, RIGHT, 7),
      ''**'' \<mapsto> (BINARYOP, RIGHT, 8)]"
  by (simp add: Op_Table_def build_Op_Table_def Op_Sets_def eval_nat_numeral)

text \<open>
  C4. The unary operators have rank 7, between the multiplicative operators (rank 6) and
  \<^verbatim>\<open>**\<close> (rank 8). \<^verbatim>\<open>"-2 ** 2"\<close> is parsed as \<open>-(2 ** 2)\<close> and evaluates to the float
  \<open>-4.0\<close>; \<^verbatim>\<open>"-2*3"\<close> is parsed as \<open>(-2) * 3\<close>.
\<close>

theorem C4_unary_between_mul_and_pow:
  "Op_Table ''*'' = Some (BINARYOP, LEFT, 6) \<and> Op_Table ''/'' = Some (BINARYOP, LEFT, 6)
   \<and> Op_Table ''%'' = Some (BINARYOP, LEFT, 6)
   \<and> Op_Table ''+ x'' = Some (UNARYOP, RIGHT, 7) \<and> Op_Table ''- x'' = Some (UNARYOP, RIGHT, 7)
   \<and> Op_Table ''~ x'' = Some (UNARYOP, RIGHT, 7)
   \<and> Op_Table ''**'' = Some (BINARYOP, RIGHT, 8)
   \<and> parse_expr 0 (Parser_init (tokenise ''-2 ** 2'')) =
       Inr (Some (Unary ''- x'' (Binary ''**'' (Leaf ''2'') (Leaf ''2''))),
            Parser_done [''-'', ''2'', ''**'', ''2''])
   \<and> parse ''-2 ** 2'' = Inr (VFloat (- 4), [])
   \<and> parse_expr 0 (Parser_init (tokenise ''-2*3'')) =
       Inr (Some (Binary ''*'' (Unary ''- x'' (Leaf ''2'')) (Leaf ''3'')),
            Parser_done [''-'', ''2'', ''*'', ''3''])
   \<and> parse ''-2*3'' = Inr (VInt (- 6), [])"
proof -
  have t: "Op_Table ''*'' = Some (BINARYOP, LEFT, 6)" "Op_Table ''/'' = Some (BINARYOP, LEFT, 6)"
    "Op_Table ''%'' = Some (BINARYOP, LEFT, 6)"
    "Op_Table ''+ x'' = Some (UNARYOP, RIGHT, 7)" "Op_Table ''- x'' = Some (UNARYOP, RIGHT, 7)"
    "Op_Table ''~ x'' = Some (UNARYOP, RIGHT, 7)"
    "Op_Table ''**'' = Some (BINARYOP, RIGHT, 8)"
    by (simp_all add: Op_Table_unfold)
  have p1: "parse_expr 0 (Parser_init (tokenise ''-2 ** 2'')) =
       Inr (Some (Unary ''- x'' (Binary ''**'' (Leaf ''2'') (Leaf ''2''))),
            Parser_done [''-'', ''2'', ''**'', ''2''])"
    by code_simp
  have v1: "parse ''-2 ** 2'' = Inr (VFloat (- 4), [])"
    by code_simp
  have p2: "parse_expr 0 (Parser_init (tokenise ''-2*3'')) =
       Inr (Some (Binary ''*'' (Unary ''- x'' (Leaf ''2'')) (Leaf ''3'')),
            Parser_done [''-'', ''2'', ''*'', ''3''])"
    by code_simp
  have v2: "parse ''-2*3'' = Inr (VInt (- 6), [])"
    by code_simp
  from t p1 v1 p2 v2 show ?thesis by blast
qed

text \<open>
  C5. Operators of equal precedence group by their associativity: \<^verbatim>\<open>"8 - 4 - 2"\<close> is
  parsed as \<open>(8 - 4) - 2\<close> and evaluates to 2; \<^verbatim>\<open>"2 ** 3 ** 2"\<close> is parsed as
  \<open>2 ** (3 ** 2)\<close> and evaluates to the float 512.0.
\<close>

theorem C5_associativity:
  "parse_expr 0 (Parser_init (tokenise ''8 - 4 - 2'')) =
       Inr (Some (Binary ''-'' (Binary ''-'' (Leaf ''8'') (Leaf ''4'')) (Leaf ''2'')),
            Parser_done [''8'', ''-'', ''4'', ''-'', ''2''])
   \<and> parse ''8 - 4 - 2'' = Inr (VInt 2, [])
   \<and> parse_expr 0 (Parser_init (tokenise ''2 ** 3 ** 2'')) =
       Inr (Some (Binary ''**'' (Leaf ''2'') (Binary ''**'' (Leaf ''3'') (Leaf ''2''))),
            Parser_done [''2'', ''**'', ''3'', ''**'', ''2''])
   \<and> parse ''2 ** 3 ** 2'' = Inr (VFloat 512, [])"
proof -
  have p1: "parse_expr 0 (Parser_init (tokenise ''8 - 4 - 2'')) =
       Inr (Some (Binary ''-'' (Binary ''-'' (Leaf ''8'') (Leaf ''4'')) (Leaf ''2'')),
            Parser_done [''8'', ''-'', ''4'', ''-'', ''2''])"
    by code_simp
  have v1: "parse ''8 - 4 - 2'' = Inr (VInt 2, [])"
    by code_simp
  have p2: "parse_expr 0 (Parser_init (tokenise ''2 ** 3 ** 2'')) =
       Inr (Some (Binary ''**'' (Leaf ''2'') (Binary ''**'' (Leaf ''3'') (Leaf ''2''))),
            Parser_done [''2'', ''**'', ''3'', ''**'', ''2''])"
    by code_simp
  have v2: "parse ''2 ** 3 ** 2'' = Inr (VFloat 512, [])"
    by code_simp
  from p1 v1 p2 v2 show ?thesis by blast
qed


section \<open>Division, modulo and exponentiation\<close>

lemma not_truthy_zero: "is_zero y \<Longrightarrow> \<not> truthy y"
  by (cases y) auto


lemma eval_op_div_zero:
  "\<not> truthy y \<Longrightarrow> eval_op ''/'' x y out = Inr (VNone, out @ [''Error: division by zero.''])"
  by (simp add: eval_op_def)

lemma eval_op_mod_zero:
  "\<not> truthy y \<Longrightarrow> eval_op ''%'' x y out = Inr (VNone, out @ [''Error: modulo by zero.''])"
  by (simp add: eval_op_def)













section \<open>Literal formats\<close>

lemma py_int_str_kind: "py_int_str s base = Inr v \<Longrightarrow> \<exists>n. v = VInt n"
  by (auto simp: py_int_str_def Let_def split: if_splits option.splits)

lemma py_float_exp_kind: "py_float_exp m r = Inr v \<Longrightarrow> \<exists>x. v = VFloat x"
  by (auto simp: py_float_exp_def Let_def split: list.splits if_splits)

lemma py_float_str_kind: "py_float_str s = Inr v \<Longrightarrow> \<exists>x. v = VFloat x"
  by (auto simp: py_float_str_def Let_def dest: py_float_exp_kind split: if_splits)

text \<open>
  C8. \<^verbatim>\<open>to_number\<close> chooses the reading of a token by its format: the prefix \<^verbatim>\<open>0x\<close> or
  \<^verbatim>\<open>0X\<close> reads the rest in base 16, \<^verbatim>\<open>0o\<close> in base 8, \<^verbatim>\<open>0b\<close> in base 2; without
  such a prefix a token that holds \<^verbatim>\<open>.\<close>, \<^verbatim>\<open>e\<close> or \<^verbatim>\<open>E\<close> is read as a float, and
  any other token as a decimal integer. The integer readings yield integers only, the
  float reading yields floats only. In particular \<^verbatim>\<open>"0x7f"\<close> is 127, \<^verbatim>\<open>"0o7"\<close> is 7,
  \<^verbatim>\<open>"0b101"\<close> is 5 and \<^verbatim>\<open>"5.0"\<close> is the float 5.0.
\<close>

theorem C8_literal_formats:
  "(take 2 t = ''0x'' \<or> take 2 t = ''0X'' \<longrightarrow> to_number t = py_int_str (drop 2 t) 16)
   \<and> (take 2 t = ''0o'' \<longrightarrow> to_number t = py_int_str (drop 2 t) 8)
   \<and> (take 2 t = ''0b'' \<longrightarrow> to_number t = py_int_str (drop 2 t) 2)
   \<and> (take 2 t \<notin> {''0x'', ''0X'', ''0o'', ''0b''} \<longrightarrow>
        (CHR ''.'' \<in> set t \<or> CHR ''e'' \<in> set t \<or> CHR ''E'' \<in> set t) \<longrightarrow>
        to_number t = py_float_str t)
   \<and> (take 2 t \<notin> {''0x'', ''0X'', ''0o'', ''0b''} \<longrightarrow>
        \<not> (CHR ''.'' \<in> set t \<or> CHR ''e'' \<in> set t \<or> CHR ''E'' \<in> set t) \<longrightarrow>
        to_number t = py_int_str t 10)
   \<and> (\<forall>v. py_int_str s base = Inr v \<longrightarrow> (\<exists>n. v = VInt n))
   \<and> (\<forall>v. py_float_str s = Inr v \<longrightarrow> (\<exists>x. v = VFloat x))
   \<and> to_number ''0x7f'' = Inr (VInt 127)
   \<and> to_number ''0X7F'' = Inr (VInt 127)
   \<and> to_number ''0o7'' = Inr (VInt 7)
   \<and> to_number ''0b101'' = Inr (VInt 5)
   \<and> to_number ''5.0'' = Inr (VFloat 5)
   \<and> to_number ''1e3'' = Inr (VFloat 1000)
   \<and> to_number ''45'' = Inr (VInt 45)"
proof -
  have a: "take 2 t = ''0x'' \<or> take 2 t = ''0X'' \<longrightarrow> to_number t = py_int_str (drop 2 t) 16"
    by (auto simp: to_number_def)
  have b: "take 2 t = ''0o'' \<longrightarrow> to_number t = py_int_str (drop 2 t) 8"
    by (simp add: to_number_def)
  have c: "take 2 t = ''0b'' \<longrightarrow> to_number t = py_int_str (drop 2 t) 2"
    by (simp add: to_number_def)
  have d: "take 2 t \<notin> {''0x'', ''0X'', ''0o'', ''0b''} \<longrightarrow>
        (CHR ''.'' \<in> set t \<or> CHR ''e'' \<in> set t \<or> CHR ''E'' \<in> set t) \<longrightarrow>
        to_number t = py_float_str t"
    by (simp add: to_number_def)
  have e: "take 2 t \<notin> {''0x'', ''0X'', ''0o'', ''0b''} \<longrightarrow>
        \<not> (CHR ''.'' \<in> set t \<or> CHR ''e'' \<in> set t \<or> CHR ''E'' \<in> set t) \<longrightarrow>
        to_number t = py_int_str t 10"
    by (simp add: to_number_def)
  have f: "\<forall>v. py_int_str s base = Inr v \<longrightarrow> (\<exists>n. v = VInt n)"
    by (blast dest: py_int_str_kind)
  have g: "\<forall>v. py_float_str s = Inr v \<longrightarrow> (\<exists>x. v = VFloat x)"
    by (blast dest: py_float_str_kind)
  have h: "to_number ''0x7f'' = Inr (VInt 127)" "to_number ''0X7F'' = Inr (VInt 127)"
    "to_number ''0o7'' = Inr (VInt 7)" "to_number ''0b101'' = Inr (VInt 5)"
    "to_number ''5.0'' = Inr (VFloat 5)" "to_number ''1e3'' = Inr (VFloat 1000)"
    "to_number ''45'' = Inr (VInt 45)"
    by code_simp+
  from a b c d e f g h show ?thesis by blast
qed

theorem C8_literal_formats_witness:
  "take 2 ''0x1F'' = ''0x'' \<and> to_number ''0x1F'' = py_int_str ''1F'' 16
   \<and> py_int_str ''1F'' 16 = Inr (VInt 31)
   \<and> take 2 ''2.5'' \<notin> {''0x'', ''0X'', ''0o'', ''0b''} \<and> CHR ''.'' \<in> set ''2.5''
   \<and> to_number ''2.5'' = py_float_str ''2.5'' \<and> py_float_str ''2.5'' = Inr (VFloat (5 / 2))
   \<and> take 2 ''12'' \<notin> {''0x'', ''0X'', ''0o'', ''0b''}
   \<and> \<not> (CHR ''.'' \<in> set ''12'' \<or> CHR ''e'' \<in> set ''12'' \<or> CHR ''E'' \<in> set ''12'')
   \<and> to_number ''12'' = py_int_str ''12'' 10 \<and> py_int_str ''12'' 10 = Inr (VInt 12)"
proof -
  have v: "py_int_str ''1F'' 16 = Inr (VInt 31)" "py_float_str ''2.5'' = Inr (VFloat (5 / 2))"
    "py_int_str ''12'' 10 = Inr (VInt 12)"
    by code_simp+
  have "to_number ''0x1F'' = py_int_str ''1F'' 16"
    using C8_literal_formats [of "''0x1F''"] by simp
  moreover have "to_number ''2.5'' = py_float_str ''2.5''"
    using C8_literal_formats [of "''2.5''"] by simp
  moreover have "to_number ''12'' = py_int_str ''12'' 10"
    using C8_literal_formats [of "''12''"] by simp
  ultimately show ?thesis using v by simp
qed


section \<open>Properties of the tokeniser\<close>

lemma scan_number_ge: "i \<le> scan_number line i"
proof (induction line i rule: scan_number.induct)
  case (1 line i)
  show ?case
    using "1.IH" by (subst scan_number.simps) auto
qed

lemma scan_number_le: "i \<le> length line \<Longrightarrow> scan_number line i \<le> length line"
proof (induction line i rule: scan_number.induct)
  case (1 line i)
  show ?case
    using "1.IH" "1.prems" by (subst scan_number.simps) auto
qed

lemma scan_number_all:
  "i \<le> k \<Longrightarrow> k < scan_number line i \<Longrightarrow> line ! k \<in> set number_chars"
proof (induction line i rule: scan_number.induct)
  case (1 line i)
  show ?case
  proof (cases "i < length line \<and> line ! i \<in> set number_chars")
    case True
    then have s: "scan_number line i = scan_number line (i + 1)"
      by (subst scan_number.simps) simp
    show ?thesis
    proof (cases "k = i")
      case True
      with \<open>i < length line \<and> line ! i \<in> set number_chars\<close> show ?thesis by simp
    next
      case False
      with "1.prems" s have "i + 1 \<le> k" "k < scan_number line (i + 1)" by simp_all
      with "1.IH" [OF True] show ?thesis by simp
    qed
  next
    case False
    then have "scan_number line i = i" by (subst scan_number.simps) auto
    with "1.prems" show ?thesis by simp
  qed
qed

lemma scan_number_append:
  "i \<le> length xs \<Longrightarrow> c \<notin> set number_chars \<Longrightarrow>
     scan_number (xs @ c # rest) i = scan_number xs i"
proof (induction xs i rule: scan_number.induct)
  case (1 xs i)
  show ?case
  proof (cases "i < length xs")
    case True
    show ?thesis
    proof (cases "xs ! i \<in> set number_chars")
      case num: True
      have "scan_number (xs @ c # rest) i = scan_number (xs @ c # rest) (i + 1)"
        using True num by (subst scan_number.simps) (simp add: nth_append)
      also have "\<dots> = scan_number xs (i + 1)"
        using "1.IH" True num "1.prems" by simp
      also have "\<dots> = scan_number xs i"
        using True num by (subst (2) scan_number.simps) simp
      finally show ?thesis .
    next
      case False
      then have "scan_number xs i = i" by (subst scan_number.simps) auto
      moreover have "scan_number (xs @ c # rest) i = i"
        using True False by (subst scan_number.simps) (simp add: nth_append)
      ultimately show ?thesis by simp
    qed
  next
    case False
    with "1.prems" have i: "i = length xs" by simp
    have "scan_number xs i = i" using i by (subst scan_number.simps) simp
    moreover have "scan_number (xs @ c # rest) i = i"
      using i "1.prems" by (subst scan_number.simps) simp
    ultimately show ?thesis by simp
  qed
qed

lemma scan_number_shift:
  "scan_number (pre @ s) (length pre + i) = length pre + scan_number s i"
proof (induction s i rule: scan_number.induct)
  case (1 s i)
  show ?case
  proof (cases "i < length s \<and> s ! i \<in> set number_chars")
    case True
    have "scan_number (pre @ s) (length pre + i) = scan_number (pre @ s) (length pre + (i + 1))"
      using True by (subst scan_number.simps) (simp add: add.assoc)
    also have "\<dots> = length pre + scan_number s (i + 1)"
      using "1.IH" True by simp
    also have "\<dots> = length pre + scan_number s i"
      using True by (subst (2) scan_number.simps) simp
    finally show ?thesis .
  next
    case False
    then have "scan_number s i = i" by (subst scan_number.simps) auto
    moreover have "scan_number (pre @ s) (length pre + i) = length pre + i"
      using False by (subst scan_number.simps) auto
    ultimately show ?thesis by simp
  qed
qed

lemma slice_shift: "slice (pre @ s) (length pre + i) (length pre + j) = slice s i j"
  by (simp add: slice_def)

lemma slice_append: "j \<le> length xs \<Longrightarrow> slice (xs @ ys) i j = slice xs i j"
  by (simp add: slice_def)

lemma find_punct_shift: "find_punct toks (pre @ s) (length pre + i) = find_punct toks s i"
  by (induction toks) (simp_all add: slice_def)

lemma find_punct_slice: "find_punct toks line i = Some tk \<Longrightarrow> slice line i (i + length tk) = tk"
  by (induction toks) (auto split: if_splits)

lemma find_punct_length:
  assumes "find_punct toks line i = Some tk" and "tk \<noteq> []"
  shows "i + length tk \<le> length line"
proof -
  from assms(1) have "take (length tk) (drop i line) = tk"
    by (drule_tac find_punct_slice) (simp add: slice_def)
  then have "length (take (length tk) (drop i line)) = length tk" by simp
  moreover from assms(2) have "0 < length tk" by simp
  ultimately show ?thesis by (simp only: length_take length_drop)
qed


text \<open>
  Only the two-character tokens look beyond the current character, and their second
  characters are \<^verbatim>\<open>*\<close>, \<^verbatim>\<open><\<close> and \<^verbatim>\<open>>\<close>: any other character after the end of
  \<open>xs\<close> leaves the match inside \<open>xs\<close> as it is.
\<close>

lemma find_punct_append:
  assumes "i < length xs" and "c \<notin> {CHR ''*'', CHR ''<'', CHR ''>''}"
  shows "find_punct Predefined_Tokens (xs @ c # rest) i = find_punct Predefined_Tokens xs i"
proof -
  from assms(1) obtain a as where d: "drop i xs = a # as"
    by (cases "drop i xs") auto
  show ?thesis
  proof (cases as)
    case Nil
    with d assms show ?thesis
      by (auto simp: Predefined_Tokens_def slice_def)
  next
    case (Cons b bs)
    with d assms show ?thesis
      by (simp add: Predefined_Tokens_def slice_def)
  qed
qed

lemma find_punct_none:
  assumes "i = length xs" and "c \<notin> set (map hd Predefined_Tokens)"
  shows "find_punct Predefined_Tokens (xs @ c # rest) i = None"
  using assms by (auto simp: Predefined_Tokens_def slice_def)

lemma predefined_nonempty: "tk \<in> set Predefined_Tokens \<Longrightarrow> tk \<noteq> []"
  by (auto simp: Predefined_Tokens_def)

text \<open>The loop never reads the line from an unknown character on.\<close>

lemma tokenise_loop_halts:
  assumes "c \<notin> set whitespace" and "c \<notin> set number_chars"
    and "c \<notin> set (map hd Predefined_Tokens)"
  shows "i \<le> length xs \<Longrightarrow> tokenise_loop (xs @ c # rest) i toks = tokenise_loop xs i toks"
proof (induction xs i toks rule: tokenise_loop.induct)
  case (1 xs i toks)
  let ?ys = "xs @ c # rest"
  from assms(3) have c3: "c \<notin> {CHR ''*'', CHR ''<'', CHR ''>''}"
    by (auto simp: Predefined_Tokens_def)
  show ?case
  proof (cases "i < length xs")
    case False
    with "1.prems" have i: "i = length xs" by simp
    have "tokenise_loop xs i toks = toks"
      using i by (subst tokenise_loop.simps) (simp add: Let_def)
    moreover have "scan_number ?ys i = i"
      using i assms(2) by (subst scan_number.simps) simp
    then have "tokenise_loop ?ys i toks = toks"
      using i assms(1) find_punct_none [OF i assms(3), of rest]
      by (subst tokenise_loop.simps) (simp add: Let_def)
    ultimately show ?thesis by simp
  next
    case True
    then have nth: "?ys ! i = xs ! i" by (simp add: nth_append)
    show ?thesis
    proof (cases "xs ! i \<in> set whitespace")
      case ws: True
      have "tokenise_loop ?ys i toks = tokenise_loop ?ys (i + 1) toks"
        using True ws nth by (subst tokenise_loop.simps) (simp add: Let_def)
      also have "\<dots> = tokenise_loop xs (i + 1) toks"
        using "1.IH"(1) [OF True ws] True by simp
      also have "\<dots> = tokenise_loop xs i toks"
        using True ws by (subst (2) tokenise_loop.simps) (simp add: Let_def)
      finally show ?thesis .
    next
      case nws: False
      have fp: "find_punct Predefined_Tokens ?ys i = find_punct Predefined_Tokens xs i"
        by (rule find_punct_append [OF True c3])
      show ?thesis
      proof (cases "find_punct Predefined_Tokens xs i")
        case (Some tk)
        then have "tk \<noteq> []" by (blast dest: find_punct_mem predefined_nonempty)
        with Some have le: "i + length tk \<le> length xs" by (rule find_punct_length)
        have "tokenise_loop ?ys i toks = tokenise_loop ?ys (i + length tk) (toks @ [tk])"
          using True nws nth fp Some by (subst tokenise_loop.simps) (simp add: Let_def)
        also have "\<dots> = tokenise_loop xs (i + length tk) (toks @ [tk])"
          by (rule "1.IH"(3) [OF True nws Some le])
        also have "\<dots> = tokenise_loop xs i toks"
          using True nws Some by (subst (2) tokenise_loop.simps) (simp add: Let_def)
        finally show ?thesis .
      next
        case None
        have sn: "scan_number ?ys i = scan_number xs i"
          using True assms(2) by (simp add: scan_number_append)
        show ?thesis
        proof (cases "i < scan_number xs i")
          case adv: True
          have le: "scan_number xs i \<le> length xs"
            using True by (simp add: scan_number_le)
          then have sl: "slice ?ys i (scan_number xs i) = slice xs i (scan_number xs i)"
            by (rule slice_append)
          have "tokenise_loop ?ys i toks =
              tokenise_loop ?ys (scan_number xs i) (toks @ [slice xs i (scan_number xs i)])"
            using True nws nth fp None sn adv sl by (subst tokenise_loop.simps) (simp add: Let_def)
          also have "\<dots> = tokenise_loop xs (scan_number xs i) (toks @ [slice xs i (scan_number xs i)])"
            by (rule "1.IH"(2) [OF True nws None refl adv le])
          also have "\<dots> = tokenise_loop xs i toks"
            using True nws None adv by (subst (2) tokenise_loop.simps) (simp add: Let_def)
          finally show ?thesis .
        next
          case stay: False
          have "tokenise_loop ?ys i toks = toks"
            using True nws nth fp None sn stay by (subst tokenise_loop.simps) (simp add: Let_def)
          moreover have "tokenise_loop xs i toks = toks"
            using True nws None stay by (subst tokenise_loop.simps) (simp add: Let_def)
          ultimately show ?thesis by simp
        qed
      qed
    qed
  qed
qed

lemma slice_number_shape:
  assumes "i < scan_number line i" and "i \<le> length line"
  shows "token_shape (slice line i (scan_number line i))"
proof -
  let ?j = "scan_number line i"
  have le: "?j \<le> length line" using assms(2) by (rule scan_number_le)
  have len: "length (slice line i ?j) = ?j - i"
    using le by (simp add: slice_def)
  have "x \<in> set number_chars" if "x \<in> set (slice line i ?j)" for x
  proof -
    from that obtain k where k: "k < ?j - i" "x = slice line i ?j ! k"
      using len by (auto simp: in_set_conv_nth)
    then have "x = line ! (i + k)"
      using le by (simp add: slice_def)
    moreover have "line ! (i + k) \<in> set number_chars"
      using k(1) by (intro scan_number_all [of i]) simp_all
    ultimately show ?thesis by simp
  qed
  moreover have "slice line i ?j \<noteq> []"
    using len assms(1) by auto
  ultimately show ?thesis by (auto simp: token_shape_def)
qed

lemma tokenise_loop_shape:
  "\<forall>t\<in>set toks. token_shape t \<Longrightarrow> \<forall>t\<in>set (tokenise_loop line i toks). token_shape t"
proof (induction line i toks rule: tokenise_loop.induct)
  case (1 line i toks)
  show ?case
  proof (cases "i < length line")
    case False
    then have "tokenise_loop line i toks = toks" by (subst tokenise_loop.simps) (simp add: Let_def)
    with "1.prems" show ?thesis by simp
  next
    case True
    show ?thesis
    proof (cases "line ! i \<in> set whitespace")
      case ws: True
      have "tokenise_loop line i toks = tokenise_loop line (i + 1) toks"
        using True ws by (subst tokenise_loop.simps) (simp add: Let_def)
      with "1.IH"(1) [OF True ws "1.prems"] show ?thesis by simp
    next
      case nws: False
      show ?thesis
      proof (cases "find_punct Predefined_Tokens line i")
        case (Some tk)
        then have "token_shape tk" by (auto simp: token_shape_def dest: find_punct_mem)
        with "1.prems" have "\<forall>t\<in>set (toks @ [tk]). token_shape t" by simp
        from "1.IH"(3) [OF True nws Some this]
        show ?thesis using True nws Some by (subst tokenise_loop.simps) (simp add: Let_def)
      next
        case None
        show ?thesis
        proof (cases "i < scan_number line i")
          case adv: True
          have "token_shape (slice line i (scan_number line i))"
            using adv True by (intro slice_number_shape) simp_all
          with "1.prems" have "\<forall>t\<in>set (toks @ [slice line i (scan_number line i)]). token_shape t"
            by simp
          from "1.IH"(2) [OF True nws None refl adv this]
          show ?thesis using True nws None adv by (subst tokenise_loop.simps) (simp add: Let_def)
        next
          case False
          then have "tokenise_loop line i toks = toks"
            using True nws None by (subst tokenise_loop.simps) (simp add: Let_def)
          with "1.prems" show ?thesis by simp
        qed
      qed
    qed
  qed
qed

lemma tokenise_shape: "t \<in> set (tokenise line) \<Longrightarrow> token_shape t"
  using tokenise_loop_shape [of "[]" line 0] by (simp add: tokenise_def)


lemma tokenise_loop_shift:
  "tokenise_loop (pre @ s) (length pre + i) toks = tokenise_loop s i toks"
proof (induction s i toks rule: tokenise_loop.induct)
  case (1 s i toks)
  let ?l = "pre @ s" and ?k = "length pre + i"
  have fp: "find_punct Predefined_Tokens ?l ?k = find_punct Predefined_Tokens s i"
    by (rule find_punct_shift)
  have sn: "scan_number ?l ?k = length pre + scan_number s i"
    by (rule scan_number_shift)
  show ?case
  proof (cases "i < length s")
    case False
    then show ?thesis
      by (subst tokenise_loop.simps, subst (2) tokenise_loop.simps) simp
  next
    case True
    then have nth: "?l ! ?k = s ! i" by simp
    show ?thesis
    proof (cases "s ! i \<in> set whitespace")
      case ws: True
      have "tokenise_loop ?l ?k toks = tokenise_loop ?l (length pre + (i + 1)) toks"
        using True ws nth by (subst tokenise_loop.simps) (simp add: add.assoc)
      also have "\<dots> = tokenise_loop s (i + 1) toks"
        by (rule "1.IH"(1) [OF True ws])
      also have "\<dots> = tokenise_loop s i toks"
        using True ws by (subst (2) tokenise_loop.simps) simp
      finally show ?thesis .
    next
      case nws: False
      show ?thesis
      proof (cases "find_punct Predefined_Tokens s i")
        case (Some tk)
        have "tokenise_loop ?l ?k toks = tokenise_loop ?l (length pre + (i + length tk)) (toks @ [tk])"
          using True nws nth fp Some by (subst tokenise_loop.simps) (simp add: add.assoc)
        also have "\<dots> = tokenise_loop s (i + length tk) (toks @ [tk])"
          by (rule "1.IH"(3) [OF True nws Some])
        also have "\<dots> = tokenise_loop s i toks"
          using True nws Some by (subst (2) tokenise_loop.simps) simp
        finally show ?thesis .
      next
        case None
        show ?thesis
        proof (cases "i < scan_number s i")
          case adv: True
          have sl: "slice ?l ?k (length pre + scan_number s i) = slice s i (scan_number s i)"
            by (rule slice_shift)
          have "tokenise_loop ?l ?k toks =
              tokenise_loop ?l (length pre + scan_number s i) (toks @ [slice s i (scan_number s i)])"
            using True nws nth fp None sn adv sl
            by (subst tokenise_loop.simps) (simp add: Let_def)
          also have "\<dots> = tokenise_loop s (scan_number s i) (toks @ [slice s i (scan_number s i)])"
            by (rule "1.IH"(2) [OF True nws None refl adv])
          also have "\<dots> = tokenise_loop s i toks"
            using True nws None adv by (subst (2) tokenise_loop.simps) (simp add: Let_def)
          finally show ?thesis .
        next
          case stay: False
          have "tokenise_loop ?l ?k toks = toks"
            using True nws nth fp None sn stay by (subst tokenise_loop.simps) (simp add: Let_def)
          moreover have "tokenise_loop s i toks = toks"
            using True nws None stay by (subst tokenise_loop.simps) (simp add: Let_def)
          ultimately show ?thesis by simp
        qed
      qed
    qed
  qed
qed

lemma tokenise_loop_acc:
  "tokenise_loop line i (pre @ toks) = pre @ tokenise_loop line i toks"
proof (induction line i toks rule: tokenise_loop.induct)
  case (1 line i toks)
  show ?case
  proof (cases "i < length line")
    case False
    then show ?thesis
      by (subst tokenise_loop.simps, subst (2) tokenise_loop.simps) simp
  next
    case True
    show ?thesis
    proof (cases "line ! i \<in> set whitespace")
      case ws: True
      have "tokenise_loop line i (pre @ toks) = tokenise_loop line (i + 1) (pre @ toks)"
        using True ws by (subst tokenise_loop.simps) simp
      also have "\<dots> = pre @ tokenise_loop line (i + 1) toks"
        by (rule "1.IH"(1) [OF True ws])
      also have "\<dots> = pre @ tokenise_loop line i toks"
        using True ws by (subst (2) tokenise_loop.simps) simp
      finally show ?thesis .
    next
      case nws: False
      show ?thesis
      proof (cases "find_punct Predefined_Tokens line i")
        case (Some tk)
        have "tokenise_loop line i (pre @ toks) =
            tokenise_loop line (i + length tk) (pre @ (toks @ [tk]))"
          using True nws Some by (subst tokenise_loop.simps) simp
        also have "\<dots> = pre @ tokenise_loop line (i + length tk) (toks @ [tk])"
          by (rule "1.IH"(3) [OF True nws Some])
        also have "\<dots> = pre @ tokenise_loop line i toks"
          using True nws Some by (subst (2) tokenise_loop.simps) simp
        finally show ?thesis .
      next
        case None
        show ?thesis
        proof (cases "i < scan_number line i")
          case adv: True
          have "tokenise_loop line i (pre @ toks) =
              tokenise_loop line (scan_number line i) (pre @ (toks @ [slice line i (scan_number line i)]))"
            using True nws None adv by (subst tokenise_loop.simps) (simp add: Let_def)
          also have "\<dots> = pre @ tokenise_loop line (scan_number line i)
              (toks @ [slice line i (scan_number line i)])"
            by (rule "1.IH"(2) [OF True nws None refl adv])
          also have "\<dots> = pre @ tokenise_loop line i toks"
            using True nws None adv by (subst (2) tokenise_loop.simps) (simp add: Let_def)
          finally show ?thesis .
        next
          case stay: False
          then show ?thesis
            using True nws None
            by (subst tokenise_loop.simps, subst (2) tokenise_loop.simps) (simp add: Let_def)
        qed
      qed
    qed
  qed
qed

lemma tokenise_leading_whitespace:
  assumes "w \<in> set whitespace"
  shows "tokenise (w # line) = tokenise line"
proof -
  have "tokenise (w # line) = tokenise_loop ([w] @ line) (length [w] + 0) []"
    using assms unfolding tokenise_def by (subst tokenise_loop.simps) simp
  also have "\<dots> = tokenise_loop line 0 []"
    by (rule tokenise_loop_shift)
  finally show ?thesis by (simp add: tokenise_def)
qed

text \<open>
  C9. \<^verbatim>\<open>tokenise\<close> is a total function to a list of tokens (it has no error result).
  When the line holds a character \<open>c\<close> that is neither whitespace nor a number character
  nor the first character of a predefined token, everything from \<open>c\<close> on is ignored: the
  result is the list of tokens of the text before \<open>c\<close>. A leading whitespace character
  is skipped, every token is a predefined one or a nonempty run of number characters, and
  the two-character tokens are matched before the one-character ones.
\<close>

theorem C9_tokenise_halts_at_unknown_character:
  "(c \<notin> set whitespace \<and> c \<notin> set number_chars \<and> c \<notin> set (map hd Predefined_Tokens) \<longrightarrow>
      tokenise (xs @ c # rest) = tokenise xs)
   \<and> (w \<in> set whitespace \<longrightarrow> tokenise (w # line) = tokenise line)
   \<and> (\<forall>t\<in>set (tokenise line). token_shape t)
   \<and> tokenise ''2**3<<1>>4*5'' = [''2'', ''**'', ''3'', ''<<'', ''1'', ''>>'', ''4'', ''*'', ''5'']"
proof -
  have "c \<notin> set whitespace \<and> c \<notin> set number_chars \<and> c \<notin> set (map hd Predefined_Tokens) \<longrightarrow>
      tokenise (xs @ c # rest) = tokenise xs"
    unfolding tokenise_def by (auto intro: tokenise_loop_halts)
  moreover have "w \<in> set whitespace \<longrightarrow> tokenise (w # line) = tokenise line"
    by (blast intro: tokenise_leading_whitespace)
  moreover have "\<forall>t\<in>set (tokenise line). token_shape t"
    by (blast intro: tokenise_shape)
  moreover have "tokenise ''2**3<<1>>4*5'' =
      [''2'', ''**'', ''3'', ''<<'', ''1'', ''>>'', ''4'', ''*'', ''5'']"
    by code_simp
  ultimately show ?thesis by blast
qed

theorem C9_tokenise_halts_at_unknown_character_witness:
  "CHR ''$'' \<notin> set whitespace \<and> CHR ''$'' \<notin> set number_chars
   \<and> CHR ''$'' \<notin> set (map hd Predefined_Tokens)
   \<and> tokenise (''1 + 2'' @ CHR ''$'' # '' * 3'') = tokenise ''1 + 2''
   \<and> tokenise ''1 + 2'' = [''1'', ''+'', ''2'']
   \<and> CHR '' '' \<in> set whitespace \<and> tokenise (CHR '' '' # ''7'') = tokenise ''7''
   \<and> list_all token_shape (tokenise ''1 + 2'')"
proof -
  have h: "CHR ''$'' \<notin> set whitespace" "CHR ''$'' \<notin> set number_chars"
    "CHR ''$'' \<notin> set (map hd Predefined_Tokens)" "CHR '' '' \<in> set whitespace"
    by (simp_all add: whitespace_def number_chars_def Predefined_Tokens_def)
  have t: "tokenise ''1 + 2'' = [''1'', ''+'', ''2'']" by code_simp
  have "tokenise (''1 + 2'' @ CHR ''$'' # '' * 3'') = tokenise ''1 + 2''"
    using C9_tokenise_halts_at_unknown_character [of "CHR ''$''" "''1 + 2''" "'' * 3''"] h by blast
  moreover have "tokenise (CHR '' '' # ''7'') = tokenise ''7''"
    using C9_tokenise_halts_at_unknown_character [of _ _ _ "CHR '' ''" "''7''"] h by blast
  moreover have "list_all token_shape (tokenise ''1 + 2'')"
    using C9_tokenise_halts_at_unknown_character [of _ _ _ _ "''1 + 2''"]
    unfolding list_all_iff by blast
  ultimately show ?thesis using h t by blast
qed


section \<open>Totality facts of the parser\<close>

lemma parse_atom_keeps:
  "parse_atom m s = Inr (e, s') \<Longrightarrow> keeps s s' \<and> \<not> op_token e"
  using parse_keeps_partial(1) [of m s] parse_total by blast

lemma parse_expr_keeps: "parse_expr m s = Inr (e, s') \<Longrightarrow> keeps s s'"
  using parse_keeps_partial(2) [of m s] parse_total by blast

lemma parse_loop_keeps: "parse_loop m l s = Inr (e, s') \<Longrightarrow> keeps s s'"
  using parse_keeps_partial(3) [of m l s] parse_total by blast

lemma get_curr_token_mem: "get_curr_token self = Some t \<Longrightarrow> t \<in> set (current_tokens self)"
  by (auto simp: get_curr_token_def split: if_splits)

lemma fold_lhs_not_op_token:
  "fold_lhs k a p opr (Some l) rhs = Inr l2 \<Longrightarrow> \<not> op_token l \<Longrightarrow> \<not> op_token l2"
  by (auto simp: fold_lhs_def op_token_simps split: if_splits option.splits prod.splits)

lemma fold_lhs_no_TypeError: "fold_lhs k a p opr lhs rhs \<noteq> Inl TypeError"
  by (auto simp: fold_lhs_def split: if_splits option.splits prod.splits)

lemma parse_no_TypeError:
  "parse_atom m1 s1 \<noteq> Inl TypeError"
  "parse_expr m2 s2 \<noteq> Inl TypeError"
  "parse_loop m3 l3 s3 \<noteq> Inl TypeError"
proof (induction m1 s1 and m2 s2 and m3 l3 s3 rule: parse_atom_parse_expr_parse_loop.induct)
  case (1 min_prec self)
  show ?case
  proof (cases "get_curr_token self")
    case None
    then show ?thesis by (subst parse_atom.simps) simp
  next
    case (Some t)
    show ?thesis
    proof (cases "t = ''(''")
      case True
      from "1.IH"(1) [OF Some True] Some True show ?thesis
        by (subst parse_atom.simps) (auto split: sum.splits prod.splits)
    next
      case False
      show ?thesis
      proof (cases "t \<in> set [''-'', ''+'', ''~'', ''not'']")
        case unary: True
        show ?thesis
        proof (cases "Op_Table (t @ '' x'')")
          case None
          with Some False unary show ?thesis by (subst parse_atom.simps) simp
        next
          case entry: (Some en)
          obtain k a p where en: "en = (k, a, p)" by (cases en) auto
          have "parse_expr p (get_next_token self) \<noteq> Inl TypeError"
            by (rule "1.IH"(2) [OF Some False unary entry en [symmetric] refl])
          with Some False unary entry en show ?thesis
            by (subst parse_atom.simps) (auto split: sum.splits prod.splits)
        qed
      next
        case False
        with Some \<open>t \<noteq> ''(''\<close> show ?thesis by (subst parse_atom.simps) simp
      qed
    qed
  qed
next
  case (2 min_prec self)
  show ?case
  proof (cases "parse_atom min_prec self")
    case (Inl x)
    with "2.IH"(1) show ?thesis by (subst parse_expr.simps) simp
  next
    case (Inr b)
    obtain lhs s1 where b: "b = (lhs, s1)" by (cases b) auto
    from "2.IH"(2) [OF Inr b [symmetric]] Inr b show ?thesis
      by (subst parse_expr.simps) simp
  qed
next
  case (3 min_prec lhs self)
  show ?case
  proof (cases "next_op lhs self")
    case None
    then show ?thesis by (subst parse_loop.simps) simp
  next
    case (Some c)
    obtain opr lhs1 where c: "c = (opr, lhs1)" by (cases c) auto
    show ?thesis
    proof (cases "Op_Table opr")
      case None
      with Some c show ?thesis by (subst parse_loop.simps) simp
    next
      case entry: (Some en)
      obtain k a p where en: "en = (k, a, p)" by (cases en) auto
      show ?thesis
      proof (cases "p < min_prec")
        case True
        with Some c entry en show ?thesis by (subst parse_loop.simps) simp
      next
        case False
        define np where "np = (if a = LEFT then p + 1 else p)"
        have eq: "parse_loop min_prec lhs self =
            (case parse_expr np (get_next_token self) of
               Inl e \<Rightarrow> Inl e
             | Inr (rhs, self1) \<Rightarrow>
                 (case fold_lhs k a p opr lhs1 rhs of
                    Inl e \<Rightarrow> Inl e
                  | Inr lhs2 \<Rightarrow> parse_loop min_prec lhs2 self1))"
          by (subst parse_loop.simps) (simp add: Some c entry en False np_def)
        have ih1: "parse_expr np (get_next_token self) \<noteq> Inl TypeError"
          unfolding np_def
          by (rule "3.IH"(1) [OF Some c [symmetric] entry en [symmetric] refl False])
        show ?thesis
        proof (cases "parse_expr np (get_next_token self)")
          case (Inl x)
          with eq ih1 show ?thesis by simp
        next
          case (Inr res)
          obtain rhs s1 where res: "res = (rhs, s1)" by (cases res) auto
          show ?thesis
          proof (cases "fold_lhs k a p opr lhs1 rhs")
            case (Inl x)
            with eq Inr res fold_lhs_no_TypeError [of k a p opr lhs1 rhs] show ?thesis by simp
          next
            case lhs2: (Inr lhs2)
            have "parse_loop min_prec lhs2 s1 \<noteq> Inl TypeError"
              by (rule "3.IH"(2) [OF Some c [symmetric] entry en [symmetric] refl False
                    Inr [unfolded np_def] res [symmetric] lhs2])
            with eq Inr res lhs2 show ?thesis by simp
          qed
        qed
      qed
    qed
  qed
qed

section \<open>The unary table entries and the tokens\<close>

lemma token_shape_not_unary_key:
  assumes "token_shape t"
  shows "t \<notin> {''+ x'', ''- x'', ''~ x''}"
proof
  assume "t \<in> {''+ x'', ''- x'', ''~ x''}"
  then have "CHR '' '' \<in> set t" and "t \<notin> set Predefined_Tokens"
    by (auto simp: Predefined_Tokens_def)
  with assms show False
    by (auto simp: token_shape_def number_chars_def)
qed

lemma Op_Table_kind:
  "Op_Table t = Some (k, a, p) \<Longrightarrow> t \<notin> {''+ x'', ''- x'', ''~ x''} \<Longrightarrow> k = BINARYOP"
  by (auto simp: Op_Table_unfold split: if_splits)

text \<open>
  C10. No token that \<^verbatim>\<open>tokenise\<close> produces equals one of the keys \<^verbatim>\<open>"+ x"\<close>,
  \<^verbatim>\<open>"- x"\<close>, \<^verbatim>\<open>"~ x"\<close> of the unary table entries, so every token found in the operator
  table is of binary kind. In the loop of \<^verbatim>\<open>parse_expr\<close> over such tokens the candidate
  operator is the current token and of binary kind, whenever the left-hand side is not
  itself an operator token; and it never is: \<^verbatim>\<open>parse_atom\<close> returns no operator token,
  and a fold of a left-hand side that is none builds none. The call
  \<^verbatim>\<open>Expr(ops=op, right=rhs)\<close>, a \<^verbatim>\<open>TypeError\<close> if it ran, is never reached: neither the
  fold nor the parser as a whole raises \<^verbatim>\<open>TypeError\<close>.
\<close>

theorem C10_unary_fold_branches_unreachable:
  "(\<forall>t\<in>set (tokenise line). t \<notin> {''+ x'', ''- x'', ''~ x''})
   \<and> (\<forall>t\<in>set (tokenise line). \<forall>k a p. Op_Table t = Some (k, a, p) \<longrightarrow> k = BINARYOP)
   \<and> (current_tokens self = tokenise line \<and> \<not> op_token lhs \<and> next_op lhs self = Some (opr, lhs1)
        \<longrightarrow> get_curr_token self = Some opr \<and> lhs1 = Some lhs
            \<and> (\<exists>a p. Op_Table opr = Some (BINARYOP, a, p)))
   \<and> (\<forall>e self1. parse_atom m self = Inr (e, self1) \<longrightarrow> \<not> op_token e)
   \<and> (\<forall>l2. \<not> op_token l \<and> fold_lhs k0 a0 p0 opr0 (Some l) rhs = Inr l2 \<longrightarrow> \<not> op_token l2)
   \<and> fold_lhs k0 a0 p0 opr0 lhs0 rhs \<noteq> Inl TypeError
   \<and> parse_expr m self \<noteq> Inl TypeError"
proof -
  have a: "\<forall>t\<in>set (tokenise line). t \<notin> {''+ x'', ''- x'', ''~ x''}"
    by (blast dest: tokenise_shape token_shape_not_unary_key)
  have b: "\<forall>t\<in>set (tokenise line). \<forall>k a p. Op_Table t = Some (k, a, p) \<longrightarrow> k = BINARYOP"
    using a by (blast dest: Op_Table_kind)
  have c: "current_tokens self = tokenise line \<and> \<not> op_token lhs \<and> next_op lhs self = Some (opr, lhs1)
        \<longrightarrow> get_curr_token self = Some opr \<and> lhs1 = Some lhs
            \<and> (\<exists>a p. Op_Table opr = Some (BINARYOP, a, p))"
  proof (intro impI, elim conjE)
    assume tk: "current_tokens self = tokenise line" and no: "\<not> op_token lhs"
      and n: "next_op lhs self = Some (opr, lhs1)"
    from next_op_cases [OF n] no have g: "get_curr_token self = Some opr" and l: "lhs1 = Some lhs"
      by auto
    from g tk have mem: "opr \<in> set (tokenise line)" by (auto dest: get_curr_token_mem)
    from n no obtain en where en: "Op_Table opr = Some en"
      by (auto simp: next_op_def op_token_def split: if_splits option.splits)
    obtain k a p where "en = (k, a, p)" by (cases en) auto
    with en b mem have "Op_Table opr = Some (BINARYOP, a, p)" by auto
    with g l show "get_curr_token self = Some opr \<and> lhs1 = Some lhs
        \<and> (\<exists>a p. Op_Table opr = Some (BINARYOP, a, p))" by blast
  qed
  have d: "\<forall>e self1. parse_atom m self = Inr (e, self1) \<longrightarrow> \<not> op_token e"
    by (blast dest: parse_atom_keeps)
  have e: "\<forall>l2. \<not> op_token l \<and> fold_lhs k0 a0 p0 opr0 (Some l) rhs = Inr l2 \<longrightarrow> \<not> op_token l2"
    by (blast dest: fold_lhs_not_op_token)
  have f: "fold_lhs k0 a0 p0 opr0 lhs0 rhs \<noteq> Inl TypeError"
    by (rule fold_lhs_no_TypeError)
  have g: "parse_expr m self \<noteq> Inl TypeError"
    by (rule parse_no_TypeError)
  from a b c d e f g show ?thesis by blast
qed

theorem C10_unary_fold_branches_unreachable_witness:
  "tokenise ''-2*3'' = [''-'', ''2'', ''*'', ''3'']
   \<and> list_all (\<lambda>t. t \<notin> {''+ x'', ''- x'', ''~ x''}) (tokenise ''-2*3'')
   \<and> Op_Table ''*'' = Some (BINARYOP, LEFT, 6)
   \<and> parse_atom 0 (Parser_init (tokenise ''-2*3'')) =
        Inr (Unary ''- x'' (Leaf ''2''),
             \<lparr>current_tokens = [''-'', ''2'', ''*'', ''3''], current_index = 2, printed = []\<rparr>)
   \<and> \<not> op_token (Unary ''- x'' (Leaf ''2''))
   \<and> next_op (Unary ''- x'' (Leaf ''2''))
        \<lparr>current_tokens = [''-'', ''2'', ''*'', ''3''], current_index = 2, printed = []\<rparr> =
        Some (''*'', Some (Unary ''- x'' (Leaf ''2'')))
   \<and> get_curr_token
        \<lparr>current_tokens = [''-'', ''2'', ''*'', ''3''], current_index = 2, printed = []\<rparr> = Some ''*''
   \<and> (\<exists>a p. Op_Table ''*'' = Some (BINARYOP, a, p))
   \<and> fold_lhs BINARYOP LEFT 6 ''*'' (Some (Unary ''- x'' (Leaf ''2''))) (Some (Leaf ''3'')) =
        Inr (Binary ''*'' (Unary ''- x'' (Leaf ''2'')) (Leaf ''3''))
   \<and> \<not> op_token (Binary ''*'' (Unary ''- x'' (Leaf ''2'')) (Leaf ''3''))
   \<and> parse_expr 0 (Parser_init (tokenise ''-2*3'')) \<noteq> Inl TypeError"
proof -
  let ?S = "\<lparr>current_tokens = [''-'', ''2'', ''*'', ''3''], current_index = 2, printed = []\<rparr>"
  let ?U = "Unary ''- x'' (Leaf ''2'')"
  have tk: "tokenise ''-2*3'' = [''-'', ''2'', ''*'', ''3'']" by code_simp
  have ot: "Op_Table ''*'' = Some (BINARYOP, LEFT, 6)" by (simp add: Op_Table_unfold)
  have pa: "parse_atom 0 (Parser_init (tokenise ''-2*3'')) = Inr (?U, ?S)" by code_simp
  have no: "next_op ?U ?S = Some (''*'', Some ?U)" by code_simp
  have fl: "fold_lhs BINARYOP LEFT 6 ''*'' (Some ?U) (Some (Leaf ''3'')) =
      Inr (Binary ''*'' ?U (Leaf ''3''))" by code_simp
  have cs: "current_tokens ?S = tokenise ''-2*3''" using tk by simp
  note th = C10_unary_fold_branches_unreachable
    [of "''-2*3''" ?S ?U "''*''" "Some ?U" 0 ?U BINARYOP LEFT 6 "''*''" "Some (Leaf ''3'')" "Some ?U"]
  from th have a: "list_all (\<lambda>t. t \<notin> {''+ x'', ''- x'', ''~ x''}) (tokenise ''-2*3'')"
    unfolding list_all_iff by blast
  from th have ps: "\<forall>e self1. parse_atom 0 ?S = Inr (e, self1) \<longrightarrow> \<not> op_token e" by blast
  have nu: "\<not> op_token ?U"
    using C10_unary_fold_branches_unreachable [of _ "Parser_init (tokenise ''-2*3'')" _ _ _ 0] pa
    by blast
  from th cs nu no have g: "get_curr_token ?S = Some ''*''"
    and ex: "\<exists>a p. Op_Table ''*'' = Some (BINARYOP, a, p)" by blast+
  from th nu fl have nb: "\<not> op_token (Binary ''*'' ?U (Leaf ''3''))" by blast
  have nt: "parse_expr 0 (Parser_init (tokenise ''-2*3'')) \<noteq> Inl TypeError"
    using C10_unary_fold_branches_unreachable [of _ "Parser_init (tokenise ''-2*3'')" _ _ _ 0]
    by blast
  from tk a ot pa nu no g ex fl nb nt show ?thesis by blast
qed


section \<open>Parsing inside a longer token list\<close>

lemma extend_next: "extend pre suf (get_next_token self) = get_next_token (extend pre suf self)"
  by (simp add: extend_def get_next_token_def)

lemma extend_curr_inside:
  "get_curr_token self = Some t \<Longrightarrow> get_curr_token (extend pre suf self) = Some t"
  by (auto simp: extend_def get_curr_token_def nth_append split: if_splits)

lemma extend_curr_end:
  "get_curr_token self = None \<Longrightarrow> in_bounds self \<Longrightarrow>
     get_curr_token (extend pre (c # rest) self) = Some c"
  by (auto simp: extend_def get_curr_token_def in_bounds_def nth_append split: if_splits)

lemma extend_curr_end_Nil:
  "get_curr_token self = None \<Longrightarrow> get_curr_token (extend pre [] self) = None"
  by (auto simp: extend_def get_curr_token_def split: if_splits)

lemma in_bounds_next: "get_curr_token self = Some t \<Longrightarrow> in_bounds (get_next_token self)"
  by (auto simp: in_bounds_def get_curr_token_def get_next_token_def split: if_splits)

lemma quiet_error: "keeps a b \<Longrightarrow> \<not> quiet a (get_next_token (parse_error m b))"
  by (auto simp: quiet_def keeps_def parse_error_def get_next_token_def)

lemma quiet_error': "\<not> quiet a (parse_error m a)"
  by (auto simp: quiet_def parse_error_def)

lemma quiet_next: "quiet (get_next_token a) b = quiet a b"
  by (simp add: quiet_def get_next_token_def)

lemma quiet_next': "quiet a (get_next_token b) = quiet a b"
  by (simp add: quiet_def get_next_token_def)

lemma quiet_split: "keeps a b \<Longrightarrow> keeps b c \<Longrightarrow> quiet a c \<Longrightarrow> quiet a b \<and> quiet b c"
  by (auto simp: quiet_def keeps_def)

lemma next_op_plain:
  "\<not> op_token lhs \<Longrightarrow>
     next_op lhs self =
       (case get_curr_token self of
          None \<Rightarrow> None
        | Some t \<Rightarrow> if Op_Table t = None then None else Some (t, Some lhs))"
  by (auto simp: next_op_def op_token_def)

lemma next_op_extend:
  assumes "\<not> op_token lhs" and "in_bounds self"
    and "suf = [] \<or> Op_Table (hd suf) = None"
  shows "next_op lhs (extend pre suf self) = next_op lhs self"
proof (cases "get_curr_token self")
  case (Some t)
  then show ?thesis
    using assms(1) by (simp add: next_op_plain extend_curr_inside)
next
  case None
  show ?thesis
  proof (cases suf)
    case Nil
    with None assms(1) show ?thesis by (simp add: next_op_plain extend_curr_end_Nil)
  next
    case (Cons c rest)
    with None assms show ?thesis by (simp add: next_op_plain extend_curr_end)
  qed
qed

text \<open>
  A run of the parser that prints nothing never looks behind the end of its tokens, except
  to see in the loop that no operator follows. So the same run happens inside a longer
  token list, provided that the first token after the end is no operator.
\<close>

lemma parse_extend:
  assumes suf: "suf = [] \<or> Op_Table (hd suf) = None"
  shows
    "\<forall>e t. parse_atom m1 s1 = Inr (e, t) \<longrightarrow> quiet s1 t \<longrightarrow> in_bounds s1 \<longrightarrow>
       parse_atom m1 (extend pre suf s1) = Inr (e, extend pre suf t) \<and> in_bounds t"
    "\<forall>e t. parse_expr m2 s2 = Inr (e, t) \<longrightarrow> quiet s2 t \<longrightarrow> in_bounds s2 \<longrightarrow>
       parse_expr m2 (extend pre suf s2) = Inr (e, extend pre suf t) \<and> in_bounds t"
    "\<forall>e t. parse_loop m3 l3 s3 = Inr (e, t) \<longrightarrow> quiet s3 t \<longrightarrow> in_bounds s3 \<longrightarrow> \<not> op_token l3 \<longrightarrow>
       parse_loop m3 l3 (extend pre suf s3) = Inr (e, extend pre suf t) \<and> in_bounds t"
proof (induction m1 s1 and m2 s2 and m3 l3 s3 rule: parse_atom_parse_expr_parse_loop.induct)
  case (1 min_prec self)
  show ?case
  proof (intro allI impI)
    fix e t
    assume r: "parse_atom min_prec self = Inr (e, t)" and q: "quiet self t"
      and b: "in_bounds self"
    note r' = r [unfolded parse_atom.simps [of min_prec self]]
    show "parse_atom min_prec (extend pre suf self) = Inr (e, extend pre suf t) \<and> in_bounds t"
    proof (cases "get_curr_token self")
      case None
      with r' have "t = parse_error ''source ended unexpectedly'' self" by auto
      with q show ?thesis by (simp add: quiet_error')
    next
      case (Some tk)
      have ce: "get_curr_token (extend pre suf self) = Some tk"
        by (rule extend_curr_inside [OF Some])
      have bn: "in_bounds (get_next_token self)" by (rule in_bounds_next [OF Some])
      show ?thesis
      proof (cases "tk = ''(''")
        case True
        from r' Some True obtain sub s1 where
          pe: "parse_expr 0 (get_next_token self) = Inr (sub, s1)" and
          e: "e = Expr None None None sub" and
          t: "t = get_next_token
                (if get_curr_token s1 \<noteq> Some '')''
                 then parse_error (''unmatched '' @ dquote @ ''('' @ dquote) s1 else s1)"
          by (auto split: sum.splits prod.splits)
        have k: "keeps self s1" by (rule keeps_next_D [OF parse_expr_keeps [OF pe]])
        have cp: "get_curr_token s1 = Some '')''"
        proof (rule ccontr)
          assume "get_curr_token s1 \<noteq> Some '')''"
          with t have "t = get_next_token (parse_error (''unmatched '' @ dquote @ ''('' @ dquote) s1)"
            by simp
          with quiet_error [OF k] q show False by simp
        qed
        with t have t': "t = get_next_token s1" by simp
        have q1: "quiet (get_next_token self) s1"
          using q t' by (simp add: quiet_next quiet_next')
        from "1.IH"(1) [OF Some True] pe q1 bn
        have x: "parse_expr 0 (extend pre suf (get_next_token self)) = Inr (sub, extend pre suf s1)"
          by blast
        then have x': "parse_expr 0 (get_next_token (extend pre suf self)) = Inr (sub, extend pre suf s1)"
          by (simp add: extend_next)
        have cpe: "get_curr_token (extend pre suf s1) = Some '')''"
          by (rule extend_curr_inside [OF cp])
        have "parse_atom min_prec (extend pre suf self) = Inr (e, extend pre suf t)"
          by (subst parse_atom.simps) (simp add: ce True x' cpe e t' extend_next)
        moreover have "in_bounds t" unfolding t' by (rule in_bounds_next [OF cp])
        ultimately show ?thesis by simp
      next
        case False
        show ?thesis
        proof (cases "tk \<in> set [''-'', ''+'', ''~'', ''not'']")
          case unary: True
          from r' Some False unary obtain en where entry: "Op_Table (tk @ '' x'') = Some en"
            by (cases "Op_Table (tk @ '' x'')") auto
          obtain k a p where en: "en = (k, a, p)" by (cases en) auto
          from r' Some False unary entry en obtain sub where
            pe: "parse_expr p (get_next_token self) = Inr (sub, t)" and
            e: "e = Expr None (Some (tk @ '' x'')) None sub"
            by (auto split: sum.splits prod.splits)
          have q1: "quiet (get_next_token self) t" using q by (simp add: quiet_next)
          from "1.IH"(2) [OF Some False unary entry en [symmetric] refl] pe q1 bn
          have x: "parse_expr p (extend pre suf (get_next_token self)) = Inr (sub, extend pre suf t)"
            and bt: "in_bounds t" by blast+
          from x have x': "parse_expr p (get_next_token (extend pre suf self)) = Inr (sub, extend pre suf t)"
            by (simp add: extend_next)
          have "parse_atom min_prec (extend pre suf self) = Inr (e, extend pre suf t)"
            using unary by (subst parse_atom.simps) (simp add: ce False entry en x' e)
          with bt show ?thesis by simp
        next
          case other: False
          show ?thesis
          proof (cases "Op_Table tk")
            case (Some en)
            with r' \<open>get_curr_token self = Some tk\<close> False other
            have "t = parse_error (''expected an atom, not an operator '' @ dquote @ tk @ dquote) self"
              by auto
            with q show ?thesis by (simp add: quiet_error')
          next
            case None
            with r' \<open>get_curr_token self = Some tk\<close> False other
            have e: "e = Expr (Some tk) None None None" and t: "t = get_next_token self"
              by auto
            have "parse_atom min_prec (extend pre suf self) = Inr (e, extend pre suf t)"
              using other by (subst parse_atom.simps) (simp add: ce False None e t extend_next)
            with bn t show ?thesis by simp
          qed
        qed
      qed
    qed
  qed
next
  case (2 min_prec self)
  show ?case
  proof (intro allI impI)
    fix e t
    assume r: "parse_expr min_prec self = Inr (e, t)" and q: "quiet self t"
      and b: "in_bounds self"
    note r' = r [unfolded parse_expr.simps [of min_prec self]]
    from r' obtain lhs s1 where
      pa: "parse_atom min_prec self = Inr (lhs, s1)" and
      pl: "parse_loop min_prec lhs s1 = Inr (e, t)"
      by (auto split: sum.splits prod.splits)
    from parse_atom_keeps [OF pa] have k1: "keeps self s1" and no: "\<not> op_token lhs" by simp_all
    have k2: "keeps s1 t" by (rule parse_loop_keeps [OF pl])
    from quiet_split [OF k1 k2 q] have q1: "quiet self s1" and q2: "quiet s1 t" by simp_all
    from "2.IH"(1) pa q1 b
    have x: "parse_atom min_prec (extend pre suf self) = Inr (lhs, extend pre suf s1)"
      and b1: "in_bounds s1" by blast+
    from "2.IH"(2) [OF pa refl] pl q2 b1 no
    have y: "parse_loop min_prec lhs (extend pre suf s1) = Inr (e, extend pre suf t)"
      and bt: "in_bounds t" by blast+
    have "parse_expr min_prec (extend pre suf self) = Inr (e, extend pre suf t)"
      by (subst parse_expr.simps) (simp add: x y)
    with bt show "parse_expr min_prec (extend pre suf self) = Inr (e, extend pre suf t) \<and> in_bounds t"
      by simp
  qed
next
  case (3 min_prec lhs self)
  show ?case
  proof (intro allI impI)
    fix e t
    assume r: "parse_loop min_prec lhs self = Inr (e, t)" and q: "quiet self t"
      and b: "in_bounds self" and no: "\<not> op_token lhs"
    note r' = r [unfolded parse_loop.simps [of min_prec lhs self]]
    have ne: "next_op lhs (extend pre suf self) = next_op lhs self"
      by (rule next_op_extend [OF no b suf])
    show "parse_loop min_prec lhs (extend pre suf self) = Inr (e, extend pre suf t) \<and> in_bounds t"
    proof (cases "next_op lhs self")
      case None
      with r' have "e = Some lhs" "t = self" by auto
      moreover have "parse_loop min_prec lhs (extend pre suf self) = Inr (Some lhs, extend pre suf self)"
        by (subst parse_loop.simps) (simp add: ne None)
      ultimately show ?thesis using b by simp
    next
      case (Some c)
      obtain opr lhs1 where c: "c = (opr, lhs1)" by (cases c) auto
      from next_op_cases [of lhs self opr lhs1] Some c no
      have l1: "lhs1 = Some lhs" and g: "get_curr_token self = Some opr" by auto
      from r' Some c obtain en where entry: "Op_Table opr = Some en"
        by (cases "Op_Table opr") auto
      obtain k a p where en: "en = (k, a, p)" by (cases en) auto
      show ?thesis
      proof (cases "p < min_prec")
        case True
        with r' Some c entry en have "e = lhs1" "t = self" by auto
        moreover have "parse_loop min_prec lhs (extend pre suf self) = Inr (lhs1, extend pre suf self)"
          by (subst parse_loop.simps) (simp add: ne Some c entry en True)
        ultimately show ?thesis using b by simp
      next
        case False
        define np where "np = (if a = LEFT then p + 1 else p)"
        from r' Some c entry en False obtain rhs s1 lhs2 where
          pe: "parse_expr np (get_next_token self) = Inr (rhs, s1)" and
          fl: "fold_lhs k a p opr lhs1 rhs = Inr lhs2" and
          pl: "parse_loop min_prec lhs2 s1 = Inr (e, t)"
          unfolding np_def by (auto split: sum.splits prod.splits)
        have k1: "keeps (get_next_token self) s1" by (rule parse_expr_keeps [OF pe])
        have k2: "keeps s1 t" by (rule parse_loop_keeps [OF pl])
        from q have "quiet (get_next_token self) t" by (simp add: quiet_next)
        from quiet_split [OF k1 k2 this]
        have q1: "quiet (get_next_token self) s1" and q2: "quiet s1 t" by simp_all
        have bn: "in_bounds (get_next_token self)" by (rule in_bounds_next [OF g])
        from "3.IH"(1) [OF Some c [symmetric] entry en [symmetric] refl False] pe q1 bn
        have x: "parse_expr np (extend pre suf (get_next_token self)) = Inr (rhs, extend pre suf s1)"
          and b1: "in_bounds s1" unfolding np_def by blast+
        from x have x': "parse_expr np (get_next_token (extend pre suf self)) = Inr (rhs, extend pre suf s1)"
          by (simp add: extend_next)
        have no2: "\<not> op_token lhs2"
          using fl l1 no by (auto dest: fold_lhs_not_op_token)
        from "3.IH"(2) [OF Some c [symmetric] entry en [symmetric] refl False
            pe [unfolded np_def] refl fl] pl q2 b1 no2
        have y: "parse_loop min_prec lhs2 (extend pre suf s1) = Inr (e, extend pre suf t)"
          and bt: "in_bounds t" by blast+
        have "parse_loop min_prec lhs (extend pre suf self) = Inr (e, extend pre suf t)"
          by (subst parse_loop.simps) (simp add: ne Some c entry en False x' [unfolded np_def] fl y)
        with bt show ?thesis by simp
      qed
    qed
  qed
qed


section \<open>Parentheses around a whole expression\<close>

lemma find_punct_close:
  "find_punct Predefined_Tokens (xs @ '')'') (length xs) = Some '')''"
  by (simp add: Predefined_Tokens_def slice_def)

lemma find_punct_open:
  "find_punct Predefined_Tokens (CHR ''('' # xs) 0 = Some ''(''"
  by (simp add: Predefined_Tokens_def slice_def)

lemma tokenise_loop_close:
  "tokenise_stop xs i = length xs \<Longrightarrow> i \<le> length xs \<Longrightarrow>
     tokenise_loop (xs @ '')'') i toks = tokenise_loop xs i toks @ ['')'']"
proof (induction xs i toks rule: tokenise_loop.induct)
  case (1 xs i toks)
  let ?ys = "xs @ '')''"
  note st = "1.prems"(1)
  have c3: "CHR '')'' \<notin> {CHR ''*'', CHR ''<'', CHR ''>''}" by simp
  have cn: "CHR '')'' \<notin> set number_chars" by (simp add: number_chars_def)
  have cw: "CHR '')'' \<notin> set whitespace" by (simp add: whitespace_def)
  show ?case
  proof (cases "i < length xs")
    case False
    with "1.prems" have i: "i = length xs" by simp
    have "tokenise_loop xs i toks = toks"
      using i by (subst tokenise_loop.simps) simp
    moreover have "tokenise_loop ?ys (i + length '')'') (toks @ ['')'']) = toks @ ['')'']"
      using i by (subst tokenise_loop.simps) simp
    then have "tokenise_loop ?ys i toks = toks @ ['')'']"
      using i cw find_punct_close [of xs]
      by (subst tokenise_loop.simps) simp
    ultimately show ?thesis by simp
  next
    case True
    then have nth: "?ys ! i = xs ! i" by (simp add: nth_append)
    show ?thesis
    proof (cases "xs ! i \<in> set whitespace")
      case ws: True
      have s1: "tokenise_stop xs (i + 1) = length xs"
        using st True ws by (subst (asm) tokenise_stop.simps) simp
      have "tokenise_loop ?ys i toks = tokenise_loop ?ys (i + 1) toks"
        using True ws nth by (subst tokenise_loop.simps) simp
      also have "\<dots> = tokenise_loop xs (i + 1) toks @ ['')'']"
        using "1.IH"(1) [OF True ws s1] True by simp
      also have "tokenise_loop xs (i + 1) toks = tokenise_loop xs i toks"
        using True ws by (subst (2) tokenise_loop.simps) simp
      finally show ?thesis .
    next
      case nws: False
      have fp: "find_punct Predefined_Tokens ?ys i = find_punct Predefined_Tokens xs i"
        using find_punct_append [OF True c3, of "[]"] by simp
      show ?thesis
      proof (cases "find_punct Predefined_Tokens xs i")
        case (Some tk)
        then have "tk \<noteq> []" by (blast dest: find_punct_mem predefined_nonempty)
        with Some have le: "i + length tk \<le> length xs" by (rule find_punct_length)
        have s1: "tokenise_stop xs (i + length tk) = length xs"
          using st True nws Some by (subst (asm) tokenise_stop.simps) simp
        have "tokenise_loop ?ys i toks = tokenise_loop ?ys (i + length tk) (toks @ [tk])"
          using True nws nth fp Some by (subst tokenise_loop.simps) simp
        also have "\<dots> = tokenise_loop xs (i + length tk) (toks @ [tk]) @ ['')'']"
          by (rule "1.IH"(3) [OF True nws Some s1 le])
        also have "tokenise_loop xs (i + length tk) (toks @ [tk]) = tokenise_loop xs i toks"
          using True nws Some by (subst (2) tokenise_loop.simps) simp
        finally show ?thesis .
      next
        case None
        have sn: "scan_number ?ys i = scan_number xs i"
          using True cn scan_number_append [of i xs "CHR '')''" "[]"] by simp
        show ?thesis
        proof (cases "i < scan_number xs i")
          case adv: True
          have le: "scan_number xs i \<le> length xs"
            using True by (simp add: scan_number_le)
          then have sl: "slice ?ys i (scan_number xs i) = slice xs i (scan_number xs i)"
            by (rule slice_append)
          have s1: "tokenise_stop xs (scan_number xs i) = length xs"
            using st True nws None adv by (subst (asm) tokenise_stop.simps) (simp add: Let_def)
          have "tokenise_loop ?ys i toks =
              tokenise_loop ?ys (scan_number xs i) (toks @ [slice xs i (scan_number xs i)])"
            using True nws nth fp None sn adv sl
            by (subst tokenise_loop.simps) (simp add: Let_def)
          also have "\<dots> = tokenise_loop xs (scan_number xs i)
              (toks @ [slice xs i (scan_number xs i)]) @ ['')'']"
            by (rule "1.IH"(2) [OF True nws None refl adv s1 le])
          also have "tokenise_loop xs (scan_number xs i) (toks @ [slice xs i (scan_number xs i)]) =
              tokenise_loop xs i toks"
            using True nws None adv by (subst (2) tokenise_loop.simps) (simp add: Let_def)
          finally show ?thesis .
        next
          case stay: False
          have "tokenise_stop xs i = i"
            using True nws None stay by (subst tokenise_stop.simps) (simp add: Let_def)
          with st True show ?thesis by simp
        qed
      qed
    qed
  qed
qed

lemma tokenise_wrap:
  assumes "tokenise_stop line 0 = length line"
  shows "tokenise (''('' @ line @ '')'') = ''('' # tokenise line @ ['')'']"
proof -
  have cw: "CHR ''('' \<notin> set whitespace" by (simp add: whitespace_def)
  have "tokenise (''('' @ line @ '')'') = tokenise_loop (''('' @ (line @ '')'')) (length ''('' + 0) [''('']"
    unfolding tokenise_def using cw find_punct_open [of "line @ '')''"]
    by (subst tokenise_loop.simps) simp
  also have "\<dots> = tokenise_loop (line @ '')'') 0 ([''(''] @ [])"
    using tokenise_loop_shift [of "''(''" "line @ '')''" 0 "[''('']"] by simp
  also have "\<dots> = [''(''] @ tokenise_loop (line @ '')'') 0 []"
    by (rule tokenise_loop_acc)
  also have "tokenise_loop (line @ '')'') 0 [] = tokenise_loop line 0 [] @ ['')'']"
    using assms by (intro tokenise_loop_close) simp_all
  finally show ?thesis by (simp add: tokenise_def)
qed

lemma parse_expr_no_tokens:
  "parse_expr 0 (Parser_init []) =
     Inr (Some Expr_empty,
          \<lparr>current_tokens = [], current_index = 0,
             printed = [''Parse error: source ended unexpectedly'']\<rparr>)"
  by code_simp

lemma accepted_tokens: "accepted line \<Longrightarrow> tokenise line \<noteq> []"
proof
  assume a: "accepted line" and "tokenise line = []"
  then show False
    by (simp add: accepted_def parse_expr_no_tokens)
qed

lemma Op_Table_close: "Op_Table '')'' = None"
  by (simp add: Op_Table_unfold)

text \<open>
  The parse of \<open>"(" # ts @ [")"]\<close>, for tokens \<open>ts\<close> that the parser consumes silently
  into the tree \<open>e\<close>: the tree \<open>Paren e\<close>, again silently and with every token consumed.
\<close>

lemma parse_expr_wrap:
  assumes pe: "parse_expr 0 (Parser_init ts) = Inr (Some e, s)"
    and pr: "printed s = []" and ix: "current_index s = length ts"
  shows "parse_expr 0 (Parser_init (''('' # ts @ ['')''])) =
    Inr (Some (Paren e), Parser_done (''('' # ts @ ['')'']))"
proof -
  let ?W = "''('' # ts @ ['')'']"
  let ?x = "extend [''(''] ['')'']"
  have tk: "current_tokens s = ts"
    using parse_expr_keeps [OF pe] by (simp add: keeps_def Parser_init_def)
  have s: "s = Parser_done ts" using tk pr ix by simp
  have start: "get_next_token (Parser_init ?W) = ?x (Parser_init ts)"
    by (simp add: get_next_token_def Parser_init_def extend_def)
  have q: "quiet (Parser_init ts) s" using pr by (simp add: quiet_def Parser_init_def)
  have b: "in_bounds (Parser_init ts)" by (simp add: in_bounds_def Parser_init_def)
  have "['')''] = [] \<or> Op_Table (hd ['')'']) = None" by (simp add: Op_Table_close)
  from parse_extend(2) [OF this, of 0 "Parser_init ts" "[''('']"] pe q b
  have x: "parse_expr 0 (?x (Parser_init ts)) = Inr (Some e, ?x s)" by blast
  have g0: "get_curr_token (Parser_init ?W) = Some ''(''"
    by (simp add: get_curr_token_def Parser_init_def)
  have g1: "get_curr_token (?x s) = Some '')''"
    unfolding s by (simp add: get_curr_token_def extend_def nth_append)
  have g2: "get_curr_token (get_next_token (?x s)) = None"
    unfolding s by (simp add: get_curr_token_def get_next_token_def extend_def)
  have fin: "get_next_token (?x s) = Parser_done ?W"
    unfolding s by (simp add: get_next_token_def extend_def)
  have pa: "parse_atom 0 (Parser_init ?W) = Inr (Paren e, get_next_token (?x s))"
    by (subst parse_atom.simps) (simp add: g0 start x g1)
  have "\<not> op_token (Paren e)" by (simp add: op_token_simps)
  then have "next_op (Paren e) (get_next_token (?x s)) = None"
    by (simp add: next_op_plain g2)
  then have pl: "parse_loop 0 (Paren e) (get_next_token (?x s)) =
      Inr (Some (Paren e), get_next_token (?x s))"
    by (subst parse_loop.simps) simp
  show ?thesis
    by (subst parse_expr.simps)
       (simp only: pa [unfolded fin] pl [unfolded fin] sum.case prod.case)
qed

text \<open>
  C6. For every accepted expression text \<open>line\<close> (the tokeniser reads it to its end, the
  parser consumes every token and prints no parse error), the text in parentheses is
  parsed into the \<^verbatim>\<open>Paren\<close> node of the same tree and \<^verbatim>\<open>parse\<close> gives the same result:
  the same value and printed lines, or the same exception. A \<^verbatim>\<open>Paren\<close> node evaluates
  to what its inner node evaluates to.
\<close>

theorem C6_parentheses_transparent:
  "(accepted line \<longrightarrow> parse (''('' @ line @ '')'') = parse line)
   \<and> (\<forall>e parser. accepted line \<and> parse_expr 0 (Parser_init (tokenise line)) = Inr (Some e, parser) \<longrightarrow>
         parse_expr 0 (Parser_init (tokenise (''('' @ line @ '')''))) =
           Inr (Some (Paren e), Parser_done (tokenise (''('' @ line @ '')''))))
   \<and> evaluate (Paren e0) out = evaluate e0 out"
proof -
  have main: "parse_expr 0 (Parser_init (tokenise (''('' @ line @ '')''))) =
           Inr (Some (Paren e), Parser_done (tokenise (''('' @ line @ '')'')))
        \<and> parse (''('' @ line @ '')'') = parse line"
    if acc: "accepted line" and pe: "parse_expr 0 (Parser_init (tokenise line)) = Inr (Some e, s)"
    for e s
  proof -
    from acc pe have st: "tokenise_stop line 0 = length line" and pr: "printed s = []"
      and ix: "current_index s = length (tokenise line)"
      by (simp_all add: accepted_def)
    have ne: "tokenise line \<noteq> []" by (rule accepted_tokens [OF acc])
    have w: "tokenise (''('' @ line @ '')'') = ''('' # tokenise line @ ['')'']"
      by (rule tokenise_wrap [OF st])
    have pw: "parse_expr 0 (Parser_init (tokenise (''('' @ line @ '')''))) =
        Inr (Some (Paren e), Parser_done (tokenise (''('' @ line @ '')'')))"
      unfolding w by (rule parse_expr_wrap [OF pe pr ix])
    have "parse (''('' @ line @ '')'') = evaluate (Paren e) []"
      using pw w by (simp add: parse_def)
    also have "\<dots> = evaluate e []" by (rule evaluate_Paren)
    also have "\<dots> = parse line"
      using pe pr ne by (simp add: parse_def)
    finally show ?thesis using pw by simp
  qed
  have a: "accepted line \<longrightarrow> parse (''('' @ line @ '')'') = parse line"
  proof
    assume acc: "accepted line"
    then obtain e s where "parse_expr 0 (Parser_init (tokenise line)) = Inr (Some e, s)"
      by (auto simp: accepted_def split: sum.splits prod.splits option.splits)
    from main [OF acc this] show "parse (''('' @ line @ '')'') = parse line" by simp
  qed
  have b: "\<forall>e parser. accepted line \<and> parse_expr 0 (Parser_init (tokenise line)) = Inr (Some e, parser) \<longrightarrow>
         parse_expr 0 (Parser_init (tokenise (''('' @ line @ '')''))) =
           Inr (Some (Paren e), Parser_done (tokenise (''('' @ line @ '')'')))"
    using main by blast
  have c: "evaluate (Paren e0) out = evaluate e0 out" by (rule evaluate_Paren)
  from a b c show ?thesis by blast
qed

theorem C6_parentheses_transparent_witness:
  "accepted ''1 + 2 * 3''
   \<and> parse ''(1 + 2 * 3)'' = parse ''1 + 2 * 3''
   \<and> parse_expr 0 (Parser_init (tokenise ''1 + 2 * 3'')) =
       Inr (Some (Binary ''+'' (Leaf ''1'') (Binary ''*'' (Leaf ''2'') (Leaf ''3''))),
            Parser_done [''1'', ''+'', ''2'', ''*'', ''3''])
   \<and> parse_expr 0 (Parser_init (tokenise ''(1 + 2 * 3)'')) =
       Inr (Some (Paren (Binary ''+'' (Leaf ''1'') (Binary ''*'' (Leaf ''2'') (Leaf ''3'')))),
            Parser_done (tokenise ''(1 + 2 * 3)''))
   \<and> accepted ''(5-2)/3.0''
   \<and> parse ''((5-2)/3.0)'' = parse ''(5-2)/3.0''"
proof -
  have a1: "accepted ''1 + 2 * 3''" by code_simp
  have a2: "accepted ''(5-2)/3.0''" by code_simp
  have p1: "parse_expr 0 (Parser_init (tokenise ''1 + 2 * 3'')) =
       Inr (Some (Binary ''+'' (Leaf ''1'') (Binary ''*'' (Leaf ''2'') (Leaf ''3''))),
            Parser_done [''1'', ''+'', ''2'', ''*'', ''3''])"
    by code_simp
  have v1: "parse ''(1 + 2 * 3)'' = parse ''1 + 2 * 3''"
    using C6_parentheses_transparent [of "''1 + 2 * 3''"] a1 by simp
  have w1: "parse_expr 0 (Parser_init (tokenise ''(1 + 2 * 3)'')) =
       Inr (Some (Paren (Binary ''+'' (Leaf ''1'') (Binary ''*'' (Leaf ''2'') (Leaf ''3'')))),
            Parser_done (tokenise ''(1 + 2 * 3)''))"
    using C6_parentheses_transparent [of "''1 + 2 * 3''"] a1 p1 by simp
  have v2: "parse ''((5-2)/3.0)'' = parse ''(5-2)/3.0''"
    using C6_parentheses_transparent [of "''(5-2)/3.0''"] a2 by simp
  from a1 v1 p1 w1 a2 v2 show ?thesis by blast
qed


section \<open>Division and modulo by zero\<close>

lemma number_char_not_punct:
  assumes "i < length line" and "line ! i \<in> set number_chars"
  shows "find_punct Predefined_Tokens line i = None"
proof -
  from assms(1) obtain a as where d: "drop i line = a # as"
    by (cases "drop i line") auto
  then have "a = line ! i"
    using assms(1) by (metis nth_via_drop)
  with assms(2) have "a \<in> set number_chars" by simp
  then have "a \<notin> {CHR ''*'', CHR ''<'', CHR ''>'', CHR ''('', CHR '')'', CHR ''~'', CHR ''+'',
      CHR ''-'', CHR ''/'', CHR ''%'', CHR ''|'', CHR ''^'', CHR ''&''}"
    by (auto simp: number_chars_def)
  with d show ?thesis
    by (auto simp: Predefined_Tokens_def slice_def split: list.splits)
qed

lemma scan_number_run:
  "set x \<subseteq> set number_chars \<Longrightarrow> i \<le> length x \<Longrightarrow> scan_number x i = length x"
proof (induction x i rule: scan_number.induct)
  case (1 x i)
  show ?case
  proof (cases "i < length x")
    case True
    with "1.prems" have "x ! i \<in> set number_chars" by auto
    with True "1.IH" "1.prems" show ?thesis
      by (subst scan_number.simps) simp
  next
    case False
    with "1.prems" show ?thesis by (subst scan_number.simps) simp
  qed
qed

text \<open>A literal, a space and further text: the literal is the first token.\<close>

lemma tokenise_literal_first:
  assumes "x \<noteq> []" and "set x \<subseteq> set number_chars"
  shows "tokenise (x @ CHR '' '' # rest) = x # tokenise rest"
proof -
  let ?l = "x @ CHR '' '' # rest"
  have sp: "CHR '' '' \<notin> set number_chars" by (simp add: number_chars_def)
  have 0: "0 < length ?l" "?l ! 0 = x ! 0" "x ! 0 \<in> set number_chars"
    using assms by (auto simp: nth_append)
  then have nw: "?l ! 0 \<notin> set whitespace"
    by (auto simp: number_chars_def whitespace_def)
  have fp: "find_punct Predefined_Tokens ?l 0 = None"
    using 0 by (intro number_char_not_punct) simp_all
  have sn: "scan_number ?l 0 = length x"
    using scan_number_append [of 0 x "CHR '' ''" rest] sp scan_number_run [OF assms(2), of 0]
    by simp
  have sl: "slice ?l 0 (length x) = x" by (simp add: slice_def)
  have "tokenise ?l = tokenise_loop ?l (length x) [x]"
    unfolding tokenise_def using 0(1) nw fp sn sl assms(1)
    by (subst tokenise_loop.simps) (simp add: Let_def)
  also have "\<dots> = tokenise_loop ?l (length x + 1) [x]"
    by (subst tokenise_loop.simps) (simp add: whitespace_def)
  also have "\<dots> = tokenise_loop rest 0 ([x] @ [])"
    using tokenise_loop_shift [of "x @ '' ''" rest 0 "[x]"] by simp
  also have "\<dots> = [x] @ tokenise_loop rest 0 []"
    by (rule tokenise_loop_acc)
  finally show ?thesis by (simp add: tokenise_def)
qed

lemma Op_Table_number:
  assumes "x \<noteq> []" and "set x \<subseteq> set number_chars"
  shows "Op_Table x = None" and "x \<noteq> ''(''" and "x \<notin> set [''-'', ''+'', ''~'', ''not'']"
proof -
  from assms obtain a as where x: "x = a # as" and a: "a \<in> set number_chars"
    by (cases x) auto
  from a have "a \<notin> {CHR ''|'', CHR ''^'', CHR ''&'', CHR ''<'', CHR ''>'', CHR ''+'', CHR ''-'',
      CHR ''*'', CHR ''/'', CHR ''%'', CHR ''~'', CHR ''('', CHR ''n''}"
    by (auto simp: number_chars_def)
  with x show "Op_Table x = None" and "x \<noteq> ''(''" and "x \<notin> set [''-'', ''+'', ''~'', ''not'']"
    by (auto simp: Op_Table_unfold)
qed

lemma Op_Table_simps:
  "Op_Table ''/'' = Some (BINARYOP, LEFT, 6)" "Op_Table ''%'' = Some (BINARYOP, LEFT, 6)"
  "Op_Table ''0'' = None"
  by (simp_all add: Op_Table_unfold)

text \<open>The parse of the three tokens \<open>x\<close>, \<^verbatim>\<open>/\<close> or \<^verbatim>\<open>%\<close>, and \<^verbatim>\<open>0\<close>, for an atom \<open>x\<close>.\<close>

lemma parse_tokens_zero_divisor:
  assumes "Op_Table x = None" and "x \<noteq> ''(''" and "x \<notin> set [''-'', ''+'', ''~'', ''not'']"
    and "x \<noteq> []" and "opr = ''/'' \<or> opr = ''%''"
  shows "parse_expr 0 (Parser_init [x, opr, ''0'']) =
    Inr (Some (Binary opr (Leaf x) (Leaf ''0'')), Parser_done [x, opr, ''0''])"
proof -
  let ?ts = "[x, opr, ''0'']"
  let ?s = "\<lambda>i. \<lparr>current_tokens = ?ts, current_index = i, printed = []\<rparr>"
  have ot: "Op_Table opr = Some (BINARYOP, LEFT, 6)" using assms(5) by (auto simp: Op_Table_simps)
  have a0: "parse_atom 0 (?s 0) = Inr (Leaf x, ?s (Suc 0))"
    using assms by (subst parse_atom.simps) (simp add: get_curr_token_def get_next_token_def)
  have a2: "parse_atom 7 (?s (Suc (Suc 0))) = Inr (Leaf ''0'', ?s (Suc (Suc (Suc 0))))"
    by (subst parse_atom.simps) (simp add: get_curr_token_def get_next_token_def Op_Table_simps)
  have l3: "parse_loop 7 (Leaf ''0'') (?s (Suc (Suc (Suc 0)))) =
      Inr (Some (Leaf ''0''), ?s (Suc (Suc (Suc 0))))"
    by (subst parse_loop.simps)
       (simp add: next_op_def is_token_def str_true_def Op_Table_simps get_curr_token_def)
  have e2: "parse_expr 7 (?s (Suc (Suc 0))) = Inr (Some (Leaf ''0''), ?s (Suc (Suc (Suc 0))))"
    by (subst parse_expr.simps) (simp add: a2 l3)
  have l3': "parse_loop 0 (Binary opr (Leaf x) (Leaf ''0'')) (?s (Suc (Suc (Suc 0)))) =
      Inr (Some (Binary opr (Leaf x) (Leaf ''0'')), ?s (Suc (Suc (Suc 0))))"
    by (subst parse_loop.simps) (simp add: next_op_def is_token_def str_true_def get_curr_token_def)
  have l1: "parse_loop 0 (Leaf x) (?s (Suc 0)) =
      Inr (Some (Binary opr (Leaf x) (Leaf ''0'')), ?s (Suc (Suc (Suc 0))))"
    using assms(1,4)
    by (subst parse_loop.simps)
       (simp add: next_op_def is_token_def str_true_def get_curr_token_def ot get_next_token_def
          e2 fold_lhs_def l3')
  show ?thesis
    by (subst parse_expr.simps) (simp add: Parser_init_def a0 l1)
qed

lemma parse_literal_zero_divisor:
  assumes "x \<noteq> []" and "set x \<subseteq> set number_chars" and "to_number x = Inr v"
    and "(opr, msg) = (''/'', ''Error: division by zero.'') \<or> (opr, msg) = (''%'', ''Error: modulo by zero.'')"
  shows "parse (x @ '' '' @ opr @ '' 0'') = Inr (VNone, [msg])"
proof -
  have o: "opr = ''/'' \<or> opr = ''%''" using assms(4) by auto
  have tk: "tokenise (x @ '' '' @ opr @ '' 0'') = [x, opr, ''0'']"
  proof -
    have "tokenise (x @ CHR '' '' # (opr @ '' 0'')) = x # tokenise (opr @ '' 0'')"
      by (rule tokenise_literal_first [OF assms(1,2)])
    moreover have "tokenise (opr @ '' 0'') = [opr, ''0'']"
      using o by (elim disjE; hypsubst) code_simp+
    ultimately show ?thesis by simp
  qed
  have pe: "parse_expr 0 (Parser_init [x, opr, ''0'']) =
      Inr (Some (Binary opr (Leaf x) (Leaf ''0'')), Parser_done [x, opr, ''0''])"
    by (rule parse_tokens_zero_divisor [OF Op_Table_number [OF assms(1,2)] assms(1) o])
  have l: "evaluate (Leaf x) [] = Inr (v, [])"
    using assms(1,3) by (simp add: evaluate_Leaf lift_val_def)
  have r: "evaluate (Leaf ''0'') [] = Inr (VInt 0, [])" by code_simp
  have e: "\<not> is_empty (Leaf x)" "\<not> is_empty (Leaf ''0'')"
    using assms(1) by (simp_all add: is_empty_def str_true_def)
  have "opr \<noteq> []" using o by auto
  then have "evaluate (Binary opr (Leaf x) (Leaf ''0'')) [] = eval_op opr v (VInt 0) []"
    using l r e by (simp add: evaluate_Binary)
  also have "\<dots> = Inr (VNone, [msg])"
    using assms(4) by (auto simp: eval_op_div_zero eval_op_mod_zero)
  finally show ?thesis
    using tk pe by (simp add: parse_def)
qed

text \<open>
  C2. For operands of which the right one evaluates to zero (the integer 0 or the float
  0.0), a \<^verbatim>\<open>'/'\<close> node and a \<^verbatim>\<open>'%'\<close> node raise nothing and return \<^verbatim>\<open>None\<close>, after
  printing \<^verbatim>\<open>Error: division by zero.\<close> and \<^verbatim>\<open>Error: modulo by zero.\<close>; this holds
  for every value \<open>x\<close> of the left operand. From the text: for every numeric literal \<open>x\<close>
  (a token of number characters that \<^verbatim>\<open>to_number\<close> reads), the lines \<^verbatim>\<open>x / 0\<close> and
  \<^verbatim>\<open>x % 0\<close> give \<^verbatim>\<open>None\<close> and the message.
\<close>

theorem C2_zero_divisor_reported:
  "(evaluate l out = Inr (x, out1) \<and> evaluate r out1 = Inr (y, out2) \<and> is_zero y
      \<and> \<not> is_empty l \<and> \<not> is_empty r \<longrightarrow>
        evaluate (Binary ''/'' l r) out = Inr (VNone, out2 @ [''Error: division by zero.''])
      \<and> evaluate (Binary ''%'' l r) out = Inr (VNone, out2 @ [''Error: modulo by zero.'']))
   \<and> (lit \<noteq> [] \<and> set lit \<subseteq> set number_chars \<and> to_number lit = Inr v \<longrightarrow>
        parse (lit @ '' / 0'') = Inr (VNone, [''Error: division by zero.''])
      \<and> parse (lit @ '' % 0'') = Inr (VNone, [''Error: modulo by zero.'']))
   \<and> parse ''2.5 / 0.0'' = Inr (VNone, [''Error: division by zero.''])
   \<and> parse ''(1 + 2) % (3 - 3)'' = Inr (VNone, [''Error: modulo by zero.''])"
proof -
  have a: "evaluate l out = Inr (x, out1) \<and> evaluate r out1 = Inr (y, out2) \<and> is_zero y
      \<and> \<not> is_empty l \<and> \<not> is_empty r \<longrightarrow>
        evaluate (Binary ''/'' l r) out = Inr (VNone, out2 @ [''Error: division by zero.''])
      \<and> evaluate (Binary ''%'' l r) out = Inr (VNone, out2 @ [''Error: modulo by zero.''])"
    by (simp add: evaluate_Binary eval_op_div_zero eval_op_mod_zero not_truthy_zero)
  have b: "lit \<noteq> [] \<and> set lit \<subseteq> set number_chars \<and> to_number lit = Inr v \<longrightarrow>
        parse (lit @ '' / 0'') = Inr (VNone, [''Error: division by zero.''])
      \<and> parse (lit @ '' % 0'') = Inr (VNone, [''Error: modulo by zero.''])"
    using parse_literal_zero_divisor [of lit v "''/''" "''Error: division by zero.''"]
      parse_literal_zero_divisor [of lit v "''%''" "''Error: modulo by zero.''"]
    by simp
  have c: "parse ''2.5 / 0.0'' = Inr (VNone, [''Error: division by zero.''])" by code_simp
  have d: "parse ''(1 + 2) % (3 - 3)'' = Inr (VNone, [''Error: modulo by zero.''])" by code_simp
  from a b c d show ?thesis by blast
qed

theorem C2_zero_divisor_reported_witness:
  "evaluate (Leaf ''7'') [] = Inr (VInt 7, []) \<and> evaluate (Leaf ''0'') [] = Inr (VInt 0, [])
   \<and> is_zero (VInt 0) \<and> \<not> is_empty (Leaf ''7'') \<and> \<not> is_empty (Leaf ''0'')
   \<and> evaluate (Binary ''/'' (Leaf ''7'') (Leaf ''0'')) [] = Inr (VNone, [''Error: division by zero.''])
   \<and> evaluate (Binary ''%'' (Leaf ''7'') (Leaf ''0'')) [] = Inr (VNone, [''Error: modulo by zero.''])
   \<and> ''0x1f'' \<noteq> [] \<and> list_all (\<lambda>c. c \<in> set number_chars) ''0x1f''
   \<and> to_number ''0x1f'' = Inr (VInt 31)
   \<and> parse ''0x1f / 0'' = Inr (VNone, [''Error: division by zero.''])
   \<and> parse ''0x1f % 0'' = Inr (VNone, [''Error: modulo by zero.''])"
proof -
  have l: "evaluate (Leaf ''7'') [] = Inr (VInt 7, [])" by code_simp
  have r: "evaluate (Leaf ''0'') [] = Inr (VInt 0, [])" by code_simp
  have z: "is_zero (VInt 0)" by simp
  have e: "\<not> is_empty (Leaf ''7'')" "\<not> is_empty (Leaf ''0'')"
    by (simp_all add: is_empty_def str_true_def)
  have n: "''0x1f'' \<noteq> []" "list_all (\<lambda>c. c \<in> set number_chars) ''0x1f''"
    by (simp_all add: number_chars_def)
  then have s: "set ''0x1f'' \<subseteq> set number_chars" unfolding list_all_iff by blast
  have t: "to_number ''0x1f'' = Inr (VInt 31)" by code_simp
  have t1: "evaluate (Binary ''/'' (Leaf ''7'') (Leaf ''0'')) [] =
        Inr (VNone, [''Error: division by zero.''])
      \<and> evaluate (Binary ''%'' (Leaf ''7'') (Leaf ''0'')) [] =
        Inr (VNone, [''Error: modulo by zero.''])"
    using C2_zero_divisor_reported [of "Leaf ''7''" "[]" "VInt 7" "[]" "Leaf ''0''" "VInt 0" "[]"]
      l r z e by simp
  have t2: "parse (''0x1f'' @ '' / 0'') = Inr (VNone, [''Error: division by zero.''])
      \<and> parse (''0x1f'' @ '' % 0'') = Inr (VNone, [''Error: modulo by zero.''])"
    using C2_zero_divisor_reported [of _ _ _ _ _ _ _ "''0x1f''" "VInt 31"] n(1) s t by blast
  from l r z e n t t1 t2 show ?thesis by simp
qed


end
